theory Spec2Isabelle
  imports Complex_Main "HOL-Library.Char_ord" "HOL-Library.List_Lexorder"
begin

section \<open>Bigram authorship attribution (ultimullll/second.py)\<close>

text \<open>
  The embedding follows \<^verbatim>\<open>second.py\<close> function by function. Tokens are strings and
  Python integers are \<^typ>\<open>int\<close>. Python floats are IEEE 754 binary64 values: finite
  numbers, the two zeros, the two infinities and NaN, with every arithmetic result
  rounded to the nearest double, ties to even. Every exception the code can raise is a
  value of type \<open>error\<close>, returned on the left of a sum.
\<close>

subsection \<open>Doubles\<close>

text \<open>A double: \<open>Fin r\<close> is the finite number \<open>r\<close> (\<open>Fin 0\<close> is \<open>+0.0\<close>), \<open>NegZero\<close> is
  \<open>-0.0\<close>. The operations below are defined for every \<open>Fin r\<close>; the values a program
  meets are those \<open>round_double\<close> returns.\<close>

datatype pyfloat = Fin real | NegZero | PInf | NInf | NaN

text \<open>\<open>two_pow e\<close> is \<open>2\<close> to the integer power \<open>e\<close>.\<close>

definition two_pow :: "int \<Rightarrow> real" where
  "two_pow e = 2 powr of_int e"

text \<open>Rounding a real to the nearest integer, ties to the even one.\<close>

definition rne :: "real \<Rightarrow> int" where
  "rne y =
     (let f = \<lfloor>y\<rfloor>; d = y - of_int f
      in if d < 1 / 2 then f
         else if 1 / 2 < d then f + 1
         else if even f then f else f + 1)"

text \<open>The exponent of the binade of \<open>x\<close>, not below that of the subnormals, and the spacing
  of the doubles there (53 significant bits).\<close>

definition expo :: "real \<Rightarrow> int" where
  "expo x = max \<lfloor>log 2 \<bar>x\<bar>\<rfloor> (- 1022)"

definition ulp :: "real \<Rightarrow> real" where
  "ulp x = two_pow (expo x - 52)"

text \<open>Rounding a real to a double: the nearest multiple of the spacing; a result of
  magnitude \<open>2^1024\<close> overflows to an infinity; a result of magnitude 0 keeps the sign.\<close>

definition round_double :: "real \<Rightarrow> pyfloat" where
  "round_double x =
     (let m = of_int (rne (\<bar>x\<bar> / ulp x)) * ulp x
      in if two_pow 1024 \<le> m then (if 0 < x then PInf else NInf)
         else if m = 0 then (if 0 \<le> x then Fin 0 else NegZero)
         else Fin (sgn x * m))"

definition is_zero :: "pyfloat \<Rightarrow> bool" where
  "is_zero f = (f = Fin 0 \<or> f = NegZero)"

definition is_inf :: "pyfloat \<Rightarrow> bool" where
  "is_inf f = (f = PInf \<or> f = NInf)"

fun is_finite :: "pyfloat \<Rightarrow> bool" where
  "is_finite (Fin r) = True"
| "is_finite NegZero = True"
| "is_finite _ = False"

fun sign_bit :: "pyfloat \<Rightarrow> bool" where
  "sign_bit (Fin r) = (r < 0)"
| "sign_bit NegZero = True"
| "sign_bit NInf = True"
| "sign_bit PInf = False"
| "sign_bit NaN = False"

fun val :: "pyfloat \<Rightarrow> real" where
  "val (Fin r) = r"
| "val _ = 0"

definition signed_zero :: "bool \<Rightarrow> pyfloat" where
  "signed_zero neg = (if neg then NegZero else Fin 0)"

definition signed_inf :: "bool \<Rightarrow> pyfloat" where
  "signed_inf neg = (if neg then NInf else PInf)"

text \<open>Unary minus flips the sign, also of a zero.\<close>

fun fneg :: "pyfloat \<Rightarrow> pyfloat" where
  "fneg (Fin r) = (if r = 0 then NegZero else Fin (- r))"
| "fneg NegZero = Fin 0"
| "fneg PInf = NInf"
| "fneg NInf = PInf"
| "fneg NaN = NaN"

text \<open>IEEE addition, multiplication and division. An exact zero sum is \<open>+0.0\<close> unless
  both operands are \<open>-0.0\<close>; a zero product or quotient has the sign of its operands.
  \<open>fdiv\<close> is the division of a nonzero divisor (Python raises before dividing by zero).\<close>

definition fadd :: "pyfloat \<Rightarrow> pyfloat \<Rightarrow> pyfloat" where
  "fadd a b =
     (if a = NaN \<or> b = NaN then NaN
      else if is_inf a \<or> is_inf b
           then (if is_inf a \<and> is_inf b \<and> a \<noteq> b then NaN else if is_inf a then a else b)
      else if val a + val b = 0
           then (if a = NegZero \<and> b = NegZero then NegZero else Fin 0)
      else round_double (val a + val b))"

definition fmul :: "pyfloat \<Rightarrow> pyfloat \<Rightarrow> pyfloat" where
  "fmul a b =
     (if a = NaN \<or> b = NaN then NaN
      else if is_inf a \<or> is_inf b
           then (if is_zero a \<or> is_zero b then NaN else signed_inf (sign_bit a \<noteq> sign_bit b))
      else if val a * val b = 0 then signed_zero (sign_bit a \<noteq> sign_bit b)
      else round_double (val a * val b))"

definition fdiv :: "pyfloat \<Rightarrow> pyfloat \<Rightarrow> pyfloat" where
  "fdiv a b =
     (if a = NaN \<or> b = NaN then NaN
      else if is_inf a
           then (if is_inf b then NaN else signed_inf (sign_bit a \<noteq> sign_bit b))
      else if is_inf b then signed_zero (sign_bit a \<noteq> sign_bit b)
      else if val a / val b = 0 then signed_zero (sign_bit a \<noteq> sign_bit b)
      else round_double (val a / val b))"

text \<open>Comparisons: every comparison with NaN is false.\<close>

definition fgt :: "pyfloat \<Rightarrow> pyfloat \<Rightarrow> bool" where
  "fgt a b =
     (if a = NaN \<or> b = NaN then False
      else if a = PInf then b \<noteq> PInf
      else if a = NInf then False
      else if b = PInf then False
      else if b = NInf then True
      else val b < val a)"

definition flt :: "pyfloat \<Rightarrow> pyfloat \<Rightarrow> bool" where
  "flt a b = fgt b a"

definition fle :: "pyfloat \<Rightarrow> pyfloat \<Rightarrow> bool" where
  "fle a b = (a \<noteq> NaN \<and> b \<noteq> NaN \<and> \<not> fgt a b)"

text \<open>A positive finite double between two powers of two.\<close>

definition in_rng :: "int \<Rightarrow> int \<Rightarrow> pyfloat \<Rightarrow> bool" where
  "in_rng a b f = (case f of Fin r \<Rightarrow> two_pow a \<le> r \<and> r \<le> two_pow b | _ \<Rightarrow> False)"

subsection \<open>Errors and Python primitives\<close>

datatype error = ZeroDivisionError | ValueError | IndexError | OverflowError

text \<open>True division \<^verbatim>\<open>a / b\<close> of floats raises on a divisor \<open>0.0\<close> or \<open>-0.0\<close>, whatever
  the dividend.\<close>

definition truediv :: "pyfloat \<Rightarrow> pyfloat \<Rightarrow> error + pyfloat" where
  "truediv a b = (if is_zero b then Inl ZeroDivisionError else Inr (fdiv a b))"

text \<open>An integer operand of a float operation is converted first: correctly rounded,
  and \<^verbatim>\<open>OverflowError\<close> when the rounded value does not fit a double.\<close>

definition int_to_float :: "int \<Rightarrow> error + pyfloat" where
  "int_to_float n =
     (case round_double (of_int n) of
        PInf \<Rightarrow> Inl OverflowError
      | NInf \<Rightarrow> Inl OverflowError
      | f \<Rightarrow> Inr f)"

text \<open>The logarithm of the C library is a parameter \<open>libm_log\<close> of the model: it is
  applied to positive finite doubles only, and nothing is assumed of its results.
  \<^verbatim>\<open>math.log\<close> of one argument returns NaN and \<open>+inf\<close> unchanged and raises
  \<^verbatim>\<open>ValueError\<close> for every other argument that is not positive; it also raises
  \<^verbatim>\<open>ValueError\<close> when the library returns NaN or an infinity for a finite argument.\<close>

definition m_log :: "(pyfloat \<Rightarrow> pyfloat) \<Rightarrow> pyfloat \<Rightarrow> error + pyfloat" where
  "m_log libm_log x =
     (case x of
        NaN \<Rightarrow> Inr NaN
      | PInf \<Rightarrow> Inr PInf
      | Fin r \<Rightarrow>
          (if 0 < r
           then (if is_finite (libm_log x) then Inr (libm_log x) else Inl ValueError)
           else Inl ValueError)
      | _ \<Rightarrow> Inl ValueError)"

text \<open>\<^verbatim>\<open>math.log(x, 2)\<close>: the logarithm of \<open>x\<close>, then that of the base, then their float
  quotient. The base is the integer 2: it is converted to \<open>2.0\<close> and handed to the
  library, whose result is taken as it is.\<close>

definition math_log :: "(pyfloat \<Rightarrow> pyfloat) \<Rightarrow> pyfloat \<Rightarrow> error + pyfloat" where
  "math_log libm_log x =
     (case m_log libm_log x of
        Inl e \<Rightarrow> Inl e
      | Inr num \<Rightarrow> truediv num (libm_log (Fin 2)))"

text \<open>What the properties below ask of the C library: its logarithm is finite on the
  positive finite doubles, which all lie between \<open>2^-1074\<close> and \<open>2^1024\<close>, and its
  \<open>log(2.0)\<close> is not zero.\<close>

definition libm_contract :: "(pyfloat \<Rightarrow> pyfloat) \<Rightarrow> bool" where
  "libm_contract libm_log =
     ((\<forall>x. in_rng (- 1074) 1024 x \<longrightarrow> is_finite (libm_log x))
      \<and> \<not> is_zero (libm_log (Fin 2)))"

text \<open>A correctly rounded logarithm, as one instance of \<open>libm_log\<close>.\<close>

definition cr_log :: "pyfloat \<Rightarrow> pyfloat" where
  "cr_log x = round_double (ln (val x))"

text \<open>\<^verbatim>\<open>Counter(iterable)\<close>: a dictionary of counts. Reading a missing key gives 0
  and does not insert the key.\<close>

definition bump :: "('a \<rightharpoonup> int) \<Rightarrow> 'a \<Rightarrow> ('a \<rightharpoonup> int)" where
  "bump c x = c(x \<mapsto> (case c x of None \<Rightarrow> 1 | Some v \<Rightarrow> v + 1))"

fun count_into :: "('a \<rightharpoonup> int) \<Rightarrow> 'a list \<Rightarrow> ('a \<rightharpoonup> int)" where
  "count_into c [] = c"
| "count_into c (x # xs) = count_into (bump c x) xs"

definition Counter :: "'a list \<Rightarrow> ('a \<rightharpoonup> int)" where
  "Counter xs = count_into Map.empty xs"

definition counter_get :: "('a \<rightharpoonup> int) \<Rightarrow> 'a \<Rightarrow> int" where
  "counter_get c x = (case c x of None \<Rightarrow> 0 | Some v \<Rightarrow> v)"

text \<open>\<^verbatim>\<open>xs[a:b]\<close> with Python's clamping and its negative indices.\<close>

definition slice_index :: "int \<Rightarrow> int \<Rightarrow> nat" where
  "slice_index n i = nat (if i < 0 then max 0 (n + i) else min i n)"

definition py_slice :: "'a list \<Rightarrow> int \<Rightarrow> int \<Rightarrow> 'a list" where
  "py_slice xs a b =
     (let n = int (length xs)
      in drop (slice_index n a) (take (slice_index n b) xs))"

text \<open>\<^verbatim>\<open>sep.join(xs)\<close>.\<close>

fun join :: "string \<Rightarrow> string list \<Rightarrow> string" where
  "join sep [] = []"
| "join sep [x] = x"
| "join sep (x # y # ys) = x @ sep @ join sep (y # ys)"

text \<open>\<^verbatim>\<open>range(start, stop, step)\<close>: a zero step raises \<^verbatim>\<open>ValueError\<close>; a positive step
  counts up while below \<open>stop\<close>, a negative one counts down while above it.\<close>

function range_up :: "int \<Rightarrow> int \<Rightarrow> int \<Rightarrow> int list" where
  "range_up i stop step =
     (if 0 < step \<and> i < stop then i # range_up (i + step) stop step else [])"
  by pat_completeness auto
termination
  by (relation "measure (\<lambda>(i, stop, step). nat (stop - i))") auto

function range_down :: "int \<Rightarrow> int \<Rightarrow> int \<Rightarrow> int list" where
  "range_down i stop step =
     (if step < 0 \<and> stop < i then i # range_down (i + step) stop step else [])"
  by pat_completeness auto
termination
  by (relation "measure (\<lambda>(i, stop, step). nat (i - stop))") auto

declare range_up.simps [simp del] range_down.simps [simp del]

definition py_range :: "int \<Rightarrow> int \<Rightarrow> int \<Rightarrow> error + int list" where
  "py_range start stop step =
     (if step = 0 then Inl ValueError
      else if 0 < step then Inr (range_up start stop step)
      else Inr (range_down start stop step))"

subsection \<open>BigramModel\<close>

text \<open>The fields \<^verbatim>\<open>bigram\<close>, \<^verbatim>\<open>context\<close>, \<^verbatim>\<open>vocab\<close> and \<^verbatim>\<open>k\<close> of the dataclass, prefixed
  with \<open>m_\<close>.\<close>

record BigramModel =
  m_bigram :: "(string \<times> string) \<rightharpoonup> int"
  m_context :: "string \<rightharpoonup> int"
  m_vocab :: "string set"
  m_k :: pyfloat

text \<open>\<^verbatim>\<open>zip(seq[:-1], seq[1:])\<close>: the consecutive pairs of a sequence.\<close>

definition bigrams :: "'a list \<Rightarrow> ('a \<times> 'a) list" where
  "bigrams seq = zip (butlast seq) (tl seq)"

definition bracket :: "string list \<Rightarrow> string list" where
  "bracket tokens = [''<s>''] @ tokens @ [''</s>'']"

definition train :: "string list \<Rightarrow> pyfloat \<Rightarrow> BigramModel" where
  "train tokens kk =
     (let seq = bracket tokens
      in \<lparr> m_bigram = Counter (bigrams seq),
           m_context = Counter (butlast seq),
           m_vocab = set seq,
           m_k = kk \<rparr>)"

text \<open>\<^verbatim>\<open>(self.bigram[(w1, w2)] + self.k) / (self.context[w1] + self.k * V)\<close> in the order
  Python evaluates it: each integer is converted when its float operation runs.\<close>

definition prob :: "BigramModel \<Rightarrow> string \<Rightarrow> string \<Rightarrow> int \<Rightarrow> error + pyfloat" where
  "prob m w1 w2 V =
     (case int_to_float (counter_get (m_bigram m) (w1, w2)) of
        Inl e \<Rightarrow> Inl e
      | Inr c \<Rightarrow>
          (let num = fadd c (m_k m)
           in (case int_to_float V of
                 Inl e \<Rightarrow> Inl e
               | Inr v \<Rightarrow>
                   (let kv = fmul (m_k m) v
                    in (case int_to_float (counter_get (m_context m) w1) of
                          Inl e \<Rightarrow> Inl e
                        | Inr cx \<Rightarrow> truediv num (fadd cx kv))))))"

text \<open>The smoothing formula in the words of the specification, on a bigram count \<open>c\<close>
  and a context count \<open>x\<close>: the denominator \<open>x + k * V\<close> and the quotient
  \<open>(c + k) / (x + k * V)\<close>, in double arithmetic.\<close>

definition smoothing_denominator :: "int \<Rightarrow> pyfloat \<Rightarrow> int \<Rightarrow> error + pyfloat" where
  "smoothing_denominator x kk V =
     (case int_to_float V of Inl e \<Rightarrow> Inl e | Inr fv \<Rightarrow>
      (case int_to_float x of Inl e \<Rightarrow> Inl e | Inr fx \<Rightarrow>
         Inr (fadd fx (fmul kk fv))))"

definition smoothed :: "int \<Rightarrow> int \<Rightarrow> pyfloat \<Rightarrow> int \<Rightarrow> error + pyfloat" where
  "smoothed c x kk V =
     (case int_to_float c of Inl e \<Rightarrow> Inl e | Inr fc \<Rightarrow>
      (case smoothing_denominator x kk V of Inl e \<Rightarrow> Inl e | Inr d \<Rightarrow>
         truediv (fadd fc kk) d))"

text \<open>A count read from a mapping, an absent key counting 0.\<close>

definition count_or_zero :: "('a \<rightharpoonup> int) \<Rightarrow> 'a \<Rightarrow> int" where
  "count_or_zero c x = (case c x of None \<Rightarrow> 0 | Some n \<Rightarrow> n)"

subsection \<open>LLRScorer\<close>

record LLRScorer =
  model_A :: BigramModel
  model_B :: BigramModel
  vocab_union :: "string list"
  eps_neither :: pyfloat

fun score_loop :: "(pyfloat \<Rightarrow> pyfloat) \<Rightarrow> LLRScorer \<Rightarrow> int \<Rightarrow> (string \<times> string) list
    \<Rightarrow> pyfloat \<Rightarrow> error + pyfloat" where
  "score_loop libm_log sc V [] s = Inr s"
| "score_loop libm_log sc V ((w1, w2) # bs) s =
     (case prob (model_A sc) w1 w2 V of Inl e \<Rightarrow> Inl e | Inr pA \<Rightarrow>
      (case prob (model_B sc) w1 w2 V of Inl e \<Rightarrow> Inl e | Inr pB \<Rightarrow>
       (case truediv pA pB of Inl e \<Rightarrow> Inl e | Inr q \<Rightarrow>
        (case math_log libm_log q of Inl e \<Rightarrow> Inl e | Inr l \<Rightarrow>
           score_loop libm_log sc V bs (fadd s l)))))"

definition score_window :: "(pyfloat \<Rightarrow> pyfloat) \<Rightarrow> LLRScorer \<Rightarrow> string list \<Rightarrow> error + pyfloat" where
  "score_window libm_log sc tokens =
     (let seq = bracket tokens; V = int (length (vocab_union sc))
      in score_loop libm_log sc V (bigrams seq) (Fin 0))"

text \<open>One term of the score in the words of the specification: the base-2 logarithm of
  the ratio of the two smoothed probabilities of a bigram, or the error that computing
  it raises.\<close>

definition llr :: "(pyfloat \<Rightarrow> pyfloat) \<Rightarrow> LLRScorer \<Rightarrow> int \<Rightarrow> string \<times> string \<Rightarrow> error + pyfloat" where
  "llr libm_log sc V b =
     (case b of (w1, w2) \<Rightarrow>
        (case prob (model_A sc) w1 w2 V of Inl e \<Rightarrow> Inl e | Inr pA \<Rightarrow>
         (case prob (model_B sc) w1 w2 V of Inl e \<Rightarrow> Inl e | Inr pB \<Rightarrow>
          (case truediv pA pB of Inl e \<Rightarrow> Inl e | Inr q \<Rightarrow> math_log libm_log q))))"

text \<open>The sum of a list of terms, accumulated in double arithmetic from left to right;
  the first term that is an error is the result.\<close>

fun sum_terms :: "pyfloat \<Rightarrow> (error + pyfloat) list \<Rightarrow> error + pyfloat" where
  "sum_terms s [] = Inr s"
| "sum_terms s (Inl e # ts) = Inl e"
| "sum_terms s (Inr t # ts) = sum_terms (fadd s t) ts"

definition label :: "LLRScorer \<Rightarrow> pyfloat \<Rightarrow> string" where
  "label sc score =
     (if fgt score (eps_neither sc) then ''EMINESCU''
      else if flt score (fneg (eps_neither sc)) then ''STANESCU''
      else ''NEITHER'')"

subsection \<open>Sliding windows\<close>

text \<open>A window report: the dictionary with keys \<^verbatim>\<open>start\<close>, \<^verbatim>\<open>end\<close>, \<^verbatim>\<open>score\<close>, \<^verbatim>\<open>label\<close>
  and \<^verbatim>\<open>snippet\<close>, as a record with fields prefixed with \<open>r_\<close>.\<close>

record Row =
  r_start :: int
  r_end :: int
  r_score :: pyfloat
  r_label :: string
  r_snippet :: string

definition make_row :: "string list \<Rightarrow> LLRScorer \<Rightarrow> int \<Rightarrow> int \<Rightarrow> pyfloat \<Rightarrow> Row" where
  "make_row tokens scorer window i sc =
     \<lparr> r_start = i, r_end = i + window, r_score = sc, r_label = label scorer sc,
       r_snippet = join '' '' (py_slice tokens i (i + window)) \<rparr>"

text \<open>The body of the \<^verbatim>\<open>for i in range(...)\<close> loop, over the indices the range yields;
  an exception while scoring a window leaves the loop.\<close>

fun rows_loop :: "(pyfloat \<Rightarrow> pyfloat) \<Rightarrow> string list \<Rightarrow> LLRScorer \<Rightarrow> int \<Rightarrow> int list
    \<Rightarrow> Row list \<Rightarrow> error + Row list" where
  "rows_loop libm_log tokens scorer window [] rows = Inr rows"
| "rows_loop libm_log tokens scorer window (i # idxs) rows =
     (case score_window libm_log scorer (py_slice tokens i (i + window)) of
        Inl e \<Rightarrow> Inl e
      | Inr sc \<Rightarrow> rows_loop libm_log tokens scorer window idxs
                   (rows @ [make_row tokens scorer window i sc]))"

definition sliding_window_scores ::
    "(pyfloat \<Rightarrow> pyfloat) \<Rightarrow> string list \<Rightarrow> LLRScorer \<Rightarrow> int \<Rightarrow> int \<Rightarrow> error + Row list" where
  "sliding_window_scores libm_log tokens scorer window step =
     (let n = int (length tokens)
      in if n < 2 then Inr []
         else let window' = max 2 (min window n)
              in (case py_range 0 (n - window' + 1) step of
                    Inl e \<Rightarrow> Inl e
                  | Inr idxs \<Rightarrow> rows_loop libm_log tokens scorer window' idxs []))"

subsection \<open>Word-level labels\<close>

text \<open>\<^verbatim>\<open>xs[i]\<close> of a Python list, read or assigned: an index in \<open>[-n, n)\<close> is accepted, a
  negative one counting from the end; any other raises \<^verbatim>\<open>IndexError\<close>. The list
  \<^verbatim>\<open>sums\<close> of the source is \<open>sumv\<close> here.\<close>

definition list_index :: "'a list \<Rightarrow> int \<Rightarrow> error + nat" where
  "list_index xs i =
     (let n = int (length xs)
      in if - n \<le> i \<and> i < n then Inr (nat (if i < 0 then n + i else i))
         else Inl IndexError)"

fun cover_loop :: "pyfloat \<Rightarrow> int list \<Rightarrow> pyfloat list \<times> int list
    \<Rightarrow> error + (pyfloat list \<times> int list)" where
  "cover_loop sc [] st = Inr st"
| "cover_loop sc (i # idxs) (sumv, cnts) =
     (case list_index sumv i of Inl e \<Rightarrow> Inl e | Inr j \<Rightarrow>
      (let sumv' = sumv[j := fadd (sumv ! j) sc]
       in (case list_index cnts i of Inl e \<Rightarrow> Inl e | Inr j' \<Rightarrow>
             cover_loop sc idxs (sumv', cnts[j' := cnts ! j' + 1]))))"

fun windows_loop :: "Row list \<Rightarrow> pyfloat list \<times> int list
    \<Rightarrow> error + (pyfloat list \<times> int list)" where
  "windows_loop [] st = Inr st"
| "windows_loop (r # rs) st =
     (case cover_loop (r_score r) (range_up (r_start r) (r_end r) 1) st of
        Inl e \<Rightarrow> Inl e
      | Inr st' \<Rightarrow> windows_loop rs st')"

text \<open>\<^verbatim>\<open>(sums[i] / cnts[i]) if cnts[i] else 0.0\<close>: the count is converted to a float for
  the division.\<close>

definition avg_at :: "pyfloat list \<Rightarrow> int list \<Rightarrow> nat \<Rightarrow> error + pyfloat" where
  "avg_at sumv cnts i =
     (if cnts ! i \<noteq> 0
      then (case int_to_float (cnts ! i) of Inl e \<Rightarrow> Inl e | Inr c \<Rightarrow> truediv (sumv ! i) c)
      else Inr (Fin 0))"

fun labels_loop :: "LLRScorer \<Rightarrow> pyfloat list \<Rightarrow> int list \<Rightarrow> nat list \<Rightarrow> string list
    \<Rightarrow> error + string list" where
  "labels_loop scorer sumv cnts [] labels = Inr labels"
| "labels_loop scorer sumv cnts (i # idxs) labels =
     (case avg_at sumv cnts i of
        Inl e \<Rightarrow> Inl e
      | Inr avg \<Rightarrow> labels_loop scorer sumv cnts idxs (labels @ [label scorer avg]))"

definition word_level_labels ::
    "string list \<Rightarrow> Row list \<Rightarrow> LLRScorer \<Rightarrow> error + string list" where
  "word_level_labels tokens windows scorer =
     (let n = length tokens
      in if n = 0 then Inr []
         else (case windows_loop windows (replicate n (Fin 0), replicate n 0) of
                 Inl e \<Rightarrow> Inl e
               | Inr (sumv, cnts) \<Rightarrow> labels_loop scorer sumv cnts [0..<n] []))"

text \<open>The windows covering a position, and the mean of their scores in the words of the
  specification: their sum, accumulated from \<open>0.0\<close> in the order of the reports, divided
  by their number; \<open>0.0\<close> when there is none.\<close>

definition covering :: "Row list \<Rightarrow> nat \<Rightarrow> Row list" where
  "covering windows p = filter (\<lambda>r. r_start r \<le> int p \<and> int p < r_end r) windows"

definition mean_score :: "Row list \<Rightarrow> nat \<Rightarrow> error + pyfloat" where
  "mean_score windows p =
     (if covering windows p = [] then Inr (Fin 0)
      else (case int_to_float (int (length (covering windows p))) of
              Inl e \<Rightarrow> Inl e
            | Inr c \<Rightarrow> truediv (foldl fadd (Fin 0) (map r_score (covering windows p))) c))"

subsection \<open>Segments\<close>

type_synonym segment = "string \<times> nat \<times> nat \<times> string"

text \<open>The loop \<^verbatim>\<open>for i in range(1, len(tokens))\<close> with its state \<open>(segs, cur, start)\<close>;
  reading \<^verbatim>\<open>labels[i]\<close> past the end of \<open>labels\<close> raises.\<close>

fun seg_loop :: "string list \<Rightarrow> string list \<Rightarrow> nat list \<Rightarrow> segment list \<times> string \<times> nat
    \<Rightarrow> error + (segment list \<times> string \<times> nat)" where
  "seg_loop tokens labels [] st = Inr st"
| "seg_loop tokens labels (i # idxs) (segs, cur, start) =
     (if i < length labels
      then (if labels ! i \<noteq> cur
            then seg_loop tokens labels idxs
                   (segs @ [(cur, start, i, join '' '' (py_slice tokens (int start) (int i)))],
                    labels ! i, i)
            else seg_loop tokens labels idxs (segs, cur, start))
      else Inl IndexError)"

definition segments :: "string list \<Rightarrow> string list \<Rightarrow> error + segment list" where
  "segments tokens labels =
     (if tokens = [] then Inr []
      else (case labels of
              [] \<Rightarrow> Inl IndexError
            | l0 # _ \<Rightarrow>
                (case seg_loop tokens labels [1..<length tokens] ([], l0, 0) of
                   Inl e \<Rightarrow> Inl e
                 | Inr (segs, cur, start) \<Rightarrow>
                     Inr (segs @ [(cur, start, length tokens,
                                   join '' '' (py_slice tokens (int start) (int (length tokens))))]))))"

text \<open>Segments that tile the positions from \<open>a\<close> to \<open>b\<close>: each is non-empty and starts
  where the previous one ended.\<close>

fun tiles :: "nat \<Rightarrow> segment list \<Rightarrow> nat \<Rightarrow> bool" where
  "tiles a [] b = (a = b)"
| "tiles a ((l, s, e, t) # rest) b = (s = a \<and> s < e \<and> tiles e rest b)"

definition seg_tokens :: "string list \<Rightarrow> segment \<Rightarrow> string list" where
  "seg_tokens tokens sg = (case sg of (l, s, e, t) \<Rightarrow> py_slice tokens (int s) (int e))"

text \<open>A segment carries one label over all its positions, and its text is the joined
  tokens of its range.\<close>

definition seg_uniform :: "string list \<Rightarrow> string list \<Rightarrow> segment \<Rightarrow> bool" where
  "seg_uniform tokens labels sg =
     (case sg of (l, s, e, t) \<Rightarrow>
        list_all (\<lambda>p. labels ! p = l) [s..<e]
        \<and> t = join '' '' (py_slice tokens (int s) (int e)))"

text \<open>The number of adjacent positions whose labels differ.\<close>

fun label_changes :: "'a list \<Rightarrow> nat" where
  "label_changes (x # y # ys) = (if x \<noteq> y then 1 else 0) + label_changes (y # ys)"
| "label_changes _ = 0"

subsection \<open>The pipeline\<close>

text \<open>\<^verbatim>\<open>run_analysis\<close> after tokenisation and without its printing: the three texts
  arrive as token lists, and the result is what the printing functions are given.
  \<open>make_scorer\<close> is the scorer as \<^verbatim>\<open>run_analysis\<close> builds it, with the sorted union of
  the two vocabularies.\<close>

definition make_scorer :: "BigramModel \<Rightarrow> BigramModel \<Rightarrow> pyfloat \<Rightarrow> LLRScorer" where
  "make_scorer modelE modelS eps =
     \<lparr> model_A = modelE, model_B = modelS,
       vocab_union = sorted_list_of_set (m_vocab modelE \<union> m_vocab modelS),
       eps_neither = eps \<rparr>"


section \<open>Properties\<close>

subsection \<open>Rounding to a double\<close>

lemma two_pow_pos [simp]: "0 < two_pow e"
  by (simp add: two_pow_def)

lemma two_pow_nonneg [simp]: "0 \<le> two_pow e"
  by (simp add: two_pow_def)

lemma abs_two_pow [simp]: "\<bar>two_pow e\<bar> = two_pow e"
  by (simp add: two_pow_def)

lemma two_pow_add: "two_pow (a + b) = two_pow a * two_pow b"
  by (simp add: two_pow_def powr_add)

lemma two_pow_diff: "two_pow (a - b) = two_pow a / two_pow b"
  by (simp add: two_pow_def powr_diff)

lemma two_pow_mono: "a \<le> b \<Longrightarrow> two_pow a \<le> two_pow b"
  by (simp add: two_pow_def)

lemma two_pow_strict_mono: "a < b \<Longrightarrow> two_pow a < two_pow b"
  by (simp add: two_pow_def)

lemma two_pow_nat: "0 \<le> e \<Longrightarrow> two_pow e = of_int (2 ^ nat e)"
proof -
  assume "0 \<le> e"
  then have "of_int e = real (nat e)" by simp
  then have "two_pow e = 2 powr real (nat e)" by (simp only: two_pow_def)
  also have "\<dots> = 2 ^ nat e" by (rule powr_realpow) simp
  finally show ?thesis by simp
qed

lemma two_pow_0 [simp]: "two_pow 0 = 1"
  by (simp add: two_pow_def)

lemma rne_of_int [simp]: "rne (of_int z) = z"
  by (simp add: rne_def)

lemma rne_ge: "of_int z \<le> y \<Longrightarrow> z \<le> rne y"
proof -
  assume "of_int z \<le> y"
  then have "z \<le> \<lfloor>y\<rfloor>" by (simp add: le_floor_iff)
  moreover have "\<lfloor>y\<rfloor> \<le> rne y" by (simp add: rne_def Let_def)
  ultimately show ?thesis by simp
qed

lemma rne_le: "y \<le> of_int z \<Longrightarrow> rne y \<le> z"
proof (cases "y = of_int z")
  case True
  then show ?thesis by simp
next
  case False
  assume "y \<le> of_int z"
  then have "y < of_int z" using False by simp
  then have "\<lfloor>y\<rfloor> < z" by (simp add: floor_less_iff)
  moreover have "rne y \<le> \<lfloor>y\<rfloor> + 1" by (simp add: rne_def Let_def)
  ultimately show ?thesis by simp
qed

lemma expo_normal:
  assumes "two_pow a \<le> x" "x \<le> two_pow b" "- 1022 \<le> a"
  shows "a \<le> expo x" "expo x \<le> b" "two_pow (expo x) \<le> x"
proof -
  have x: "0 < x" using assms(1) two_pow_pos[of a] by linarith
  have la: "of_int a \<le> log 2 x" using assms(1) x by (simp add: le_log_iff two_pow_def)
  have lb: "log 2 x \<le> of_int b" using assms(2) x by (simp add: log_le_iff two_pow_def)
  have fa: "a \<le> \<lfloor>log 2 x\<rfloor>" using la by (simp add: le_floor_iff)
  have fb: "\<lfloor>log 2 x\<rfloor> \<le> b" using lb by (simp add: floor_le_iff)
  have e: "expo x = \<lfloor>log 2 x\<rfloor>" using fa assms(3) x by (simp add: expo_def)
  show "a \<le> expo x" using fa e by simp
  show "expo x \<le> b" using fb e by simp
  have "of_int \<lfloor>log 2 x\<rfloor> \<le> log 2 x" by simp
  then show "two_pow (expo x) \<le> x"
    using x le_log_iff[of 2 x "of_int \<lfloor>log 2 x\<rfloor>"] by (simp add: e two_pow_def)
qed

lemma ulp_pos [simp]: "0 < ulp x"
  by (simp add: ulp_def)

lemma ulp_nonneg [simp]: "0 \<le> ulp x"
  using ulp_pos[of x] by linarith

lemma ulp_neq_zero [simp]: "ulp x \<noteq> 0"
  using ulp_pos[of x] by linarith

lemma rne_zero [simp]: "rne 0 = 0"
  by (simp add: rne_def)

lemma round_in_range:
  assumes lo: "two_pow a \<le> x" and hi: "x \<le> two_pow b"
      and a: "- 1022 \<le> a" and b: "b \<le> 1023"
  shows "\<exists>r. round_double x = Fin r \<and> two_pow a \<le> r \<and> r \<le> two_pow b"
proof -
  let ?e = "expo x"
  have x: "0 < x" using lo two_pow_pos[of a] by linarith
  note e = expo_normal[OF lo hi a]
  let ?u = "ulp x"
  let ?n = "rne (\<bar>x\<bar> / ?u)"
  let ?m = "of_int ?n * ?u"
  have u: "?u = two_pow (?e - 52)" by (simp add: ulp_def)
  have up: "0 < ?u" by (rule ulp_pos)
  have e52: "two_pow ?e = of_int (2 ^ 52) * ?u"
  proof -
    have "two_pow ?e = two_pow (52 + (?e - 52))" by simp
    also have "\<dots> = two_pow 52 * two_pow (?e - 52)" by (rule two_pow_add)
    also have "two_pow 52 = of_int (2 ^ nat 52)" by (rule two_pow_nat) simp
    finally show ?thesis unfolding u by simp
  qed
  have be: "0 \<le> b - ?e + 52" using e(2) by simp
  have bq: "two_pow b = of_int (2 ^ nat (b - ?e + 52)) * ?u"
  proof -
    have "two_pow b = two_pow ((b - ?e + 52) + (?e - 52))" by simp
    also have "\<dots> = two_pow (b - ?e + 52) * two_pow (?e - 52)" by (rule two_pow_add)
    also have "two_pow (b - ?e + 52) = of_int (2 ^ nat (b - ?e + 52))"
      by (rule two_pow_nat[OF be])
    finally show ?thesis unfolding u .
  qed
  have "of_int (2 ^ 52) * ?u \<le> \<bar>x\<bar>" using e(3) x e52 by simp
  then have "of_int (2 ^ 52) \<le> \<bar>x\<bar> / ?u" using up by (simp add: pos_le_divide_eq)
  then have n_lo: "2 ^ 52 \<le> ?n" by (rule rne_ge)
  have "\<bar>x\<bar> \<le> of_int (2 ^ nat (b - ?e + 52)) * ?u" using hi x bq by simp
  then have "\<bar>x\<bar> / ?u \<le> of_int (2 ^ nat (b - ?e + 52))" using up by (simp add: pos_divide_le_eq)
  then have n_hi: "?n \<le> 2 ^ nat (b - ?e + 52)" by (rule rne_le)
  have m_lo: "two_pow ?e \<le> ?m"
  proof -
    have "(of_int (2 ^ 52) :: real) \<le> of_int ?n" using n_lo by (simp only: of_int_le_iff)
    then have "of_int (2 ^ 52) * ?u \<le> of_int ?n * ?u"
      using up by (intro mult_right_mono) simp_all
    then show ?thesis by (simp only: e52)
  qed
  have m_hi: "?m \<le> two_pow b"
  proof -
    have "of_int ?n \<le> (of_int (2 ^ nat (b - ?e + 52)) :: real)"
      using n_hi by (simp only: of_int_le_iff)
    then have "of_int ?n * ?u \<le> of_int (2 ^ nat (b - ?e + 52)) * ?u"
      using up by (intro mult_right_mono) simp_all
    then show ?thesis by (simp only: bq)
  qed
  have a_e: "two_pow a \<le> two_pow ?e" using e(1) by (rule two_pow_mono)
  have "two_pow b < two_pow 1024" using b by (intro two_pow_strict_mono) simp
  then have not_inf: "\<not> two_pow 1024 \<le> ?m" using m_hi by simp
  have m_pos: "0 < ?m" using m_lo two_pow_pos[of ?e] by linarith
  have "round_double x = Fin ?m"
    using not_inf m_pos x by (simp add: round_double_def Let_def)
  then show ?thesis using m_lo m_hi a_e by auto
qed

lemma round_overflow:
  assumes "two_pow 1024 \<le> x"
  shows "round_double x = PInf"
proof -
  let ?e = "expo x"
  let ?u = "ulp x"
  let ?n = "rne (\<bar>x\<bar> / ?u)"
  have x: "0 < x" using assms two_pow_pos[of 1024] by linarith
  have "real_of_int 1024 \<le> log 2 x" using assms x by (simp add: le_log_iff two_pow_def)
  then have fl: "1024 \<le> \<lfloor>log 2 x\<rfloor>" by (simp add: le_floor_iff)
  then have e: "?e = \<lfloor>log 2 x\<rfloor>" using x by (simp add: expo_def)
  have "of_int \<lfloor>log 2 x\<rfloor> \<le> log 2 x" by simp
  then have ex: "two_pow ?e \<le> x"
    using x le_log_iff[of 2 x "of_int \<lfloor>log 2 x\<rfloor>"] by (simp add: e two_pow_def)
  have u: "?u = two_pow (?e - 52)" by (simp add: ulp_def)
  have e52: "two_pow ?e = of_int (2 ^ 52) * ?u"
  proof -
    have "two_pow ?e = two_pow (52 + (?e - 52))" by simp
    also have "\<dots> = two_pow 52 * two_pow (?e - 52)" by (rule two_pow_add)
    also have "two_pow 52 = of_int (2 ^ nat 52)" by (rule two_pow_nat) simp
    finally show ?thesis unfolding u by simp
  qed
  have "of_int (2 ^ 52) * ?u \<le> \<bar>x\<bar>" using ex x e52 by simp
  then have "of_int (2 ^ 52) \<le> \<bar>x\<bar> / ?u" by (simp add: pos_le_divide_eq)
  then have "2 ^ 52 \<le> ?n" by (rule rne_ge)
  then have "(of_int (2 ^ 52) :: real) \<le> of_int ?n" by (simp only: of_int_le_iff)
  then have "of_int (2 ^ 52) * ?u \<le> of_int ?n * ?u"
    by (intro mult_right_mono) simp_all
  then have "two_pow ?e \<le> of_int ?n * ?u" by (simp only: e52)
  moreover have "two_pow 1024 \<le> two_pow ?e" using fl e by (intro two_pow_mono) simp
  ultimately have "two_pow 1024 \<le> of_int ?n * ?u" by linarith
  then show ?thesis using x by (simp add: round_double_def Let_def)
qed

lemma round_two_pow:
  assumes "- 1022 \<le> e" "e \<le> 1023"
  shows "round_double (two_pow e) = Fin (two_pow e)"
  using round_in_range[of e "two_pow e" e] assms by auto

lemma two_pow_not_le_zero [simp]: "\<not> two_pow e \<le> 0"
  using two_pow_pos[of e] by linarith

lemma round_zero [simp]: "round_double 0 = Fin 0"
  by (simp add: round_double_def Let_def)

lemma round_exact:
  assumes x: "x = of_int z * two_pow j" and z: "\<bar>z\<bar> < 2 ^ 53"
      and j: "- 1074 \<le> j" and fin: "\<bar>x\<bar> < two_pow 1024" and nz: "x \<noteq> 0"
  shows "round_double x = Fin x"
proof -
  let ?e = "expo x"
  let ?u = "ulp x"
  have ax: "\<bar>x\<bar> = of_int \<bar>z\<bar> * two_pow j" by (simp add: x abs_mult)
  have "0 < \<bar>x\<bar>" using nz by simp
  have "(of_int \<bar>z\<bar> :: real) < of_int (2 ^ 53)" using z by (simp only: of_int_less_iff)
  then have "\<bar>x\<bar> < of_int (2 ^ 53) * two_pow j"
    unfolding ax by (intro mult_strict_right_mono) simp_all
  also have "of_int (2 ^ 53) * two_pow j = two_pow (53 + j)"
    using two_pow_nat[of 53] by (simp add: two_pow_add)
  finally have lt: "\<bar>x\<bar> < two_pow (53 + j)" .
  have "log 2 \<bar>x\<bar> < of_int (53 + j)"
    using lt \<open>0 < \<bar>x\<bar>\<close> by (simp add: log_less_iff two_pow_def)
  then have "\<lfloor>log 2 \<bar>x\<bar>\<rfloor> < 53 + j" by (simp add: floor_less_iff)
  then have e: "?e \<le> 52 + j" using j by (simp add: expo_def)
  define t where "t = 52 + j - ?e"
  have t: "0 \<le> t" using e by (simp add: t_def)
  have "two_pow j = two_pow (t + (?e - 52))" by (simp add: t_def)
  also have "\<dots> = two_pow t * ?u" by (simp add: two_pow_add ulp_def)
  also have "two_pow t = of_int (2 ^ nat t)" by (rule two_pow_nat[OF t])
  finally have tj: "two_pow j = of_int (2 ^ nat t) * ?u" .
  have "\<bar>x\<bar> / ?u = of_int (\<bar>z\<bar> * 2 ^ nat t)"
    using ulp_pos[of x] by (simp add: ax tj)
  then have "rne (\<bar>x\<bar> / ?u) = \<bar>z\<bar> * 2 ^ nat t" by (simp only: rne_of_int)
  then have m: "of_int (rne (\<bar>x\<bar> / ?u)) * ?u = \<bar>x\<bar>" by (simp add: ax tj)
  have "sgn x * \<bar>x\<bar> = x" by (simp add: sgn_mult_abs)
  then show ?thesis using fin nz by (simp add: round_double_def m)
qed

lemma round_int:
  assumes "\<bar>z\<bar> < 2 ^ 53"
  shows "round_double (of_int z) = Fin (of_int z)"
proof (cases "z = 0")
  case True
  then show ?thesis by simp
next
  case False
  have "\<bar>real_of_int z\<bar> < of_int (2 ^ 53)" using assms by (simp only: of_int_abs [symmetric] of_int_less_iff)
  also have "(of_int (2 ^ 53) :: real) = two_pow 53" using two_pow_nat[of 53] by simp
  also have "two_pow 53 < two_pow 1024" by (intro two_pow_strict_mono) simp
  finally have "\<bar>real_of_int z\<bar> < two_pow 1024" .
  then show ?thesis using round_exact[of "of_int z" z 0] assms False by simp
qed

lemma in_rng_Fin: "in_rng a b f \<Longrightarrow> \<exists>r. f = Fin r \<and> two_pow a \<le> r \<and> r \<le> two_pow b"
  by (cases f) (simp_all add: in_rng_def)

lemma in_rng_pos: "in_rng a b f \<Longrightarrow> \<exists>r. f = Fin r \<and> 0 < r"
proof -
  assume "in_rng a b f"
  then obtain r where "f = Fin r" "two_pow a \<le> r" using in_rng_Fin by blast
  moreover have "0 < r" using \<open>two_pow a \<le> r\<close> two_pow_pos[of a] by linarith
  ultimately show ?thesis by blast
qed

lemma in_rng_widen: "in_rng a b f \<Longrightarrow> a' \<le> a \<Longrightarrow> b \<le> b' \<Longrightarrow> in_rng a' b' f"
  using two_pow_mono[of a' a] two_pow_mono[of b b']
  by (cases f) (auto simp: in_rng_def)

lemma round_in_rng:
  "two_pow a \<le> x \<Longrightarrow> x \<le> two_pow b \<Longrightarrow> - 1022 \<le> a \<Longrightarrow> b \<le> 1023 \<Longrightarrow>
     in_rng a b (round_double x)"
  using round_in_range[of a x b] by (auto simp: in_rng_def)

lemma fadd_in_rng:
  assumes "two_pow a \<le> x + y" "x + y \<le> two_pow b" "- 1022 \<le> a" "b \<le> 1023"
  shows "in_rng a b (fadd (Fin x) (Fin y))"
proof -
  have "x + y \<noteq> 0" using assms(1) two_pow_pos[of a] by linarith
  then have "fadd (Fin x) (Fin y) = round_double (x + y)" by (simp add: fadd_def is_inf_def)
  then show ?thesis using round_in_rng[OF assms] by simp
qed

lemma fmul_in_rng:
  assumes "in_rng a b f" "in_rng c d g" "- 1022 \<le> a + c" "b + d \<le> 1023"
  shows "in_rng (a + c) (b + d) (fmul f g)"
proof -
  obtain x where f: "f = Fin x" and x: "two_pow a \<le> x" "x \<le> two_pow b"
    using in_rng_Fin[OF assms(1)] by blast
  obtain y where g: "g = Fin y" and y: "two_pow c \<le> y" "y \<le> two_pow d"
    using in_rng_Fin[OF assms(2)] by blast
  have xp: "0 < x" using x(1) two_pow_pos[of a] by linarith
  have yp: "0 < y" using y(1) two_pow_pos[of c] by linarith
  have lo: "two_pow (a + c) \<le> x * y"
    unfolding two_pow_add using x(1) y(1) xp yp by (intro mult_mono) (simp_all add: less_imp_le)
  have hi: "x * y \<le> two_pow (b + d)"
    unfolding two_pow_add using x(2) y(2) xp yp by (intro mult_mono) (simp_all add: less_imp_le)
  have "x * y \<noteq> 0" using xp yp by simp
  then have "fmul f g = round_double (x * y)" by (simp add: fmul_def f g is_inf_def)
  then show ?thesis using round_in_rng[OF lo hi assms(3,4)] by simp
qed

lemma fdiv_in_rng:
  assumes "in_rng a b f" "in_rng c d g" "- 1022 \<le> a - d" "b - c \<le> 1023"
  shows "\<not> is_zero g" "in_rng (a - d) (b - c) (fdiv f g)"
proof -
  obtain x where f: "f = Fin x" and x: "two_pow a \<le> x" "x \<le> two_pow b"
    using in_rng_Fin[OF assms(1)] by blast
  obtain y where g: "g = Fin y" and y: "two_pow c \<le> y" "y \<le> two_pow d"
    using in_rng_Fin[OF assms(2)] by blast
  have xp: "0 < x" using x(1) two_pow_pos[of a] by linarith
  have yp: "0 < y" using y(1) two_pow_pos[of c] by linarith
  show "\<not> is_zero g" using yp by (simp add: g is_zero_def)
  have lo: "two_pow (a - d) \<le> x / y"
    unfolding two_pow_diff using x(1) y(2) xp yp by (intro frac_le) (simp_all add: less_imp_le)
  have hi: "x / y \<le> two_pow (b - c)"
    unfolding two_pow_diff using x(2) y(1) xp yp by (intro frac_le) (simp_all add: less_imp_le)
  have "x / y \<noteq> 0" using xp yp by simp
  then have "fdiv f g = round_double (x / y)" by (simp add: fdiv_def f g is_inf_def)
  then show "in_rng (a - d) (b - c) (fdiv f g)" using round_in_rng[OF lo hi assms(3,4)] by simp
qed

lemma two_pow_numeral_53: "two_pow 53 = 2 ^ 53"
  using two_pow_nat[of 53] by simp

lemma two_pow_1 [simp]: "two_pow 1 = 2"
  by (simp add: two_pow_def)

lemma two_pow_Suc: "two_pow (e + 1) = 2 * two_pow e"
  by (simp add: two_pow_add)

lemma two_pow_sign [simp]: "\<not> two_pow e < 0" "two_pow e \<noteq> 0"
  using two_pow_pos[of e] by linarith+


lemma round_one [simp]: "round_double 1 = Fin 1"
  using round_int[of 1] by simp


lemma round_huge:
  "1 \<le> c \<Longrightarrow> round_double (two_pow 1023 * (2 * c)) = PInf"
proof -
  assume c: "1 \<le> c"
  have "two_pow 1024 = two_pow 1023 * 2" using two_pow_Suc[of 1023] by simp
  also have "\<dots> \<le> two_pow 1023 * (2 * c)" using c by (intro mult_left_mono) simp_all
  finally show ?thesis by (rule round_overflow)
qed

lemma round_finite:
  assumes "\<bar>y\<bar> \<le> two_pow 1023"
  shows "is_finite (round_double y)"
proof (cases "y = 0")
  case True
  then show ?thesis by simp
next
  case False
  let ?e = "expo y"
  let ?u = "ulp y"
  let ?n = "rne (\<bar>y\<bar> / ?u)"
  let ?m = "of_int ?n * ?u"
  have e: "?e \<le> 1023"
  proof -
    have "0 < \<bar>y\<bar>" using False by simp
    then have "log 2 \<bar>y\<bar> \<le> of_int 1023"
      using assms log_le_iff[of 2 "\<bar>y\<bar>" "of_int 1023"] by (simp add: two_pow_def)
    then have "\<lfloor>log 2 \<bar>y\<bar>\<rfloor> \<le> 1023" by (simp add: floor_le_iff)
    then show ?thesis by (simp add: expo_def)
  qed
  have u: "?u = two_pow (?e - 52)" by (simp add: ulp_def)
  have be: "0 \<le> 1023 - ?e + 52" using e by simp
  have bq: "two_pow 1023 = of_int (2 ^ nat (1023 - ?e + 52)) * ?u"
  proof -
    have "two_pow 1023 = two_pow ((1023 - ?e + 52) + (?e - 52))" by simp
    also have "\<dots> = two_pow (1023 - ?e + 52) * two_pow (?e - 52)" by (rule two_pow_add)
    also have "two_pow (1023 - ?e + 52) = of_int (2 ^ nat (1023 - ?e + 52))"
      by (rule two_pow_nat[OF be])
    finally show ?thesis unfolding u .
  qed
  have "\<bar>y\<bar> \<le> of_int (2 ^ nat (1023 - ?e + 52)) * ?u" using assms bq by simp
  then have "\<bar>y\<bar> / ?u \<le> of_int (2 ^ nat (1023 - ?e + 52))"
    using ulp_pos[of y] by (simp add: pos_divide_le_eq)
  then have "?n \<le> 2 ^ nat (1023 - ?e + 52)" by (rule rne_le)
  then have "of_int ?n \<le> (of_int (2 ^ nat (1023 - ?e + 52)) :: real)"
    by (simp only: of_int_le_iff)
  then have "?m \<le> of_int (2 ^ nat (1023 - ?e + 52)) * ?u"
    using ulp_pos[of y] by (intro mult_right_mono) simp_all
  then have "?m \<le> two_pow 1023" by (simp only: bq)
  moreover have "two_pow 1023 < two_pow 1024" by (intro two_pow_strict_mono) simp
  ultimately have "\<not> two_pow 1024 \<le> ?m" by simp
  then show ?thesis by (simp add: round_double_def Let_def)
qed

lemma one_in_rng: "two_pow (- 200) \<le> 1" "1 \<le> two_pow 200"
  using two_pow_mono[of "- 200" 0] two_pow_mono[of 0 200] by simp_all

lemma val_fneg [simp]: "val (fneg f) = - val f"
  by (cases f) simp_all

subsection \<open>Counters and trained models\<close>

lemma counter_get_bump:
  "counter_get (bump c x) y = counter_get c y + (if x = y then 1 else 0)"
  by (simp add: counter_get_def bump_def split: option.splits)

lemma counter_get_count_into:
  "counter_get (count_into c xs) y = counter_get c y + int (count_list xs y)"
  by (induction xs arbitrary: c) (simp_all add: counter_get_bump)

lemma counter_get_Counter: "counter_get (Counter xs) y = int (count_list xs y)"
  unfolding Counter_def counter_get_count_into by (simp add: counter_get_def)

lemma train_bigram_count:
  "count_or_zero (m_bigram (train tokens kk)) b = int (count_list (bigrams (bracket tokens)) b)"
  using counter_get_Counter[of "bigrams (bracket tokens)" b]
  by (simp add: train_def Let_def counter_get_def count_or_zero_def)

lemma train_context_count:
  "count_or_zero (m_context (train tokens kk)) w = int (count_list (butlast (bracket tokens)) w)"
  using counter_get_Counter[of "butlast (bracket tokens)" w]
  by (simp add: train_def Let_def counter_get_def count_or_zero_def)

lemma train_k: "m_k (train tokens kk) = kk"
  by (simp add: train_def Let_def)

lemma count_bounds:
  assumes "length tokens < 2 ^ 52"
  shows "int (count_list (bigrams (bracket tokens)) b) < 2 ^ 53"
    and "int (count_list (butlast (bracket tokens)) w) < 2 ^ 53"
proof -
  have "count_list (bigrams (bracket tokens)) b \<le> length (bigrams (bracket tokens))"
    by (rule count_le_length)
  also have "\<dots> \<le> length tokens + 1" by (simp add: bigrams_def bracket_def)
  finally have "int (count_list (bigrams (bracket tokens)) b) \<le> int (length tokens) + 1" by simp
  moreover have "int (length tokens) < 2 ^ 52" using assms by (metis of_nat_less_iff of_nat_numeral of_nat_power)
  ultimately show "int (count_list (bigrams (bracket tokens)) b) < 2 ^ 53" by simp
  have "count_list (butlast (bracket tokens)) w \<le> length (butlast (bracket tokens))"
    by (rule count_le_length)
  also have "\<dots> \<le> length tokens + 1" by (simp add: bracket_def)
  finally have "int (count_list (butlast (bracket tokens)) w) \<le> int (length tokens) + 1" by simp
  then show "int (count_list (butlast (bracket tokens)) w) < 2 ^ 53"
    using \<open>int (length tokens) < 2 ^ 52\<close> by simp
qed

subsection \<open>The smoothed probability\<close>

lemma int_to_float_exact:
  "\<bar>n\<bar> < 2 ^ 53 \<Longrightarrow> int_to_float n = Inr (Fin (of_int n))"
  by (simp add: int_to_float_def round_int)

lemma real_count_le:
  assumes "0 \<le> c" "c < 2 ^ 53"
  shows "0 \<le> real_of_int c" "real_of_int c \<le> two_pow 53"
proof -
  show "0 \<le> real_of_int c" using assms(1) by simp
  have "real_of_int c \<le> of_int (2 ^ 53)" using assms(2) by (simp only: of_int_le_iff)
  then show "real_of_int c \<le> two_pow 53" using two_pow_nat[of 53] by simp
qed

lemma denominator_in_rng:
  assumes x: "0 \<le> x" "x < 2 ^ 53"
      and V: "1 \<le> V" "V < 2 ^ 53" and k: "in_rng (- 200) 200 kk"
  shows "\<exists>d. smoothing_denominator x kk V = Inr d \<and> in_rng (- 200) 254 d"
proof -
  obtain r where kk: "kk = Fin r" and r: "two_pow (- 200) \<le> r" "r \<le> two_pow 200"
    using in_rng_Fin[OF k] by blast
  have fx: "int_to_float x = Inr (Fin (of_int x))" using x by (intro int_to_float_exact) simp
  have fv: "int_to_float V = Inr (Fin (of_int V))" using V by (intro int_to_float_exact) simp
  note rx = real_count_le[OF x]
  have rv: "two_pow 0 \<le> real_of_int V" "real_of_int V \<le> two_pow 53"
    using V real_count_le[of V] by simp_all
  have p253: "two_pow 53 \<le> two_pow 253" by (intro two_pow_mono) simp
  have s254: "two_pow 254 = 2 * two_pow 253" using two_pow_Suc[of 253] by simp
  have fV: "in_rng 0 53 (Fin (of_int V))" using rv by (simp add: in_rng_def)
  have kv: "in_rng (- 200 + 0) (200 + 53) (fmul (Fin r) (Fin (of_int V)))"
    using k fV unfolding kk by (intro fmul_in_rng) simp_all
  then obtain y where y: "fmul (Fin r) (Fin (of_int V)) = Fin y"
      and yr: "two_pow (- 200) \<le> y" "y \<le> two_pow 253"
    using in_rng_Fin by fastforce
  have den: "in_rng (- 200) 254 (fadd (Fin (of_int x)) (Fin y))"
    using rx yr p253 s254 by (intro fadd_in_rng) simp_all
  have "smoothing_denominator x kk V = Inr (fadd (Fin (of_int x)) (Fin y))"
    by (simp add: smoothing_denominator_def fx fv kk y)
  then show ?thesis using den by simp
qed

lemma smoothed_in_rng:
  assumes c: "0 \<le> c" "c < 2 ^ 53" and x: "0 \<le> x" "x < 2 ^ 53"
      and V: "1 \<le> V" "V < 2 ^ 53" and k: "in_rng (- 200) 200 kk"
  shows "\<exists>p. smoothed c x kk V = Inr p \<and> in_rng (- 454) 401 p"
proof -
  obtain r where kk: "kk = Fin r" and r: "two_pow (- 200) \<le> r" "r \<le> two_pow 200"
    using in_rng_Fin[OF k] by blast
  have fc: "int_to_float c = Inr (Fin (of_int c))" using c by (intro int_to_float_exact) simp
  note rc = real_count_le[OF c]
  have p53: "two_pow 53 \<le> two_pow 200" by (intro two_pow_mono) simp
  have s201: "two_pow 201 = 2 * two_pow 200" using two_pow_Suc[of 200] by simp
  have num: "in_rng (- 200) 201 (fadd (Fin (of_int c)) (Fin r))"
    using rc r p53 s201 by (intro fadd_in_rng) simp_all
  obtain d where d: "smoothing_denominator x kk V = Inr d" and den: "in_rng (- 200) 254 d"
    using denominator_in_rng[OF x V k] by blast
  note q = fdiv_in_rng[OF num den]
  have nz: "\<not> is_zero d" by (rule q(1)) simp_all
  have "in_rng (- 200 - 254) (201 - - 200) (fdiv (fadd (Fin (of_int c)) (Fin r)) d)"
    by (rule q(2)) simp_all
  moreover have "smoothed c x kk V = Inr (fdiv (fadd (Fin (of_int c)) (Fin r)) d)"
    using nz d by (simp add: smoothed_def fc kk truediv_def)
  ultimately show ?thesis by simp
qed

lemma prob_smoothed:
  "prob m w1 w2 V =
     smoothed (count_or_zero (m_bigram m) (w1, w2)) (count_or_zero (m_context m) w1) (m_k m) V"
  by (simp add: prob_def smoothed_def smoothing_denominator_def counter_get_def
        count_or_zero_def Let_def split: sum.splits)

lemma prob_train:
  "prob (train tokens kk) w1 w2 V =
     smoothed (int (count_list (bigrams (bracket tokens)) (w1, w2)))
              (int (count_list (butlast (bracket tokens)) w1)) kk V"
  by (simp add: prob_smoothed train_bigram_count train_context_count train_k)

lemma prob_train_in_rng:
  assumes "in_rng (- 200) 200 kk" "1 \<le> V" "V < 2 ^ 53" "length tokens < 2 ^ 52"
  shows "\<exists>p. prob (train tokens kk) w1 w2 V = Inr p \<and> in_rng (- 454) 401 p"
  unfolding prob_train
  using count_bounds[OF assms(4)] assms(1-3)
  by (intro smoothed_in_rng) simp_all

lemmas float_eval =
  fadd_def fmul_def fdiv_def truediv_def is_zero_def is_inf_def signed_zero_def
  signed_inf_def int_to_float_exact smoothed_def smoothing_denominator_def

lemmas train_eval = prob_train bracket_def bigrams_def

subsection \<open>C1: the smoothing formula\<close>




subsection \<open>C8: smoothed probabilities are positive\<close>

text \<open>
  C8, as stated, covers every \<open>k > 0\<close>. For \<open>k = 2^1023\<close> and \<open>V = 4\<close> the product \<open>k * V\<close>
  overflows to \<open>+inf\<close>, and the quotient of a finite numerator by it is \<open>0.0\<close>: the
  probability is not strictly positive.
\<close>

theorem C8_prob_huge_k_zero:
  "prob (train [] (Fin (two_pow 1023))) ''x'' ''y'' 4 = Inr (Fin 0)"
  using round_huge[of 2] round_two_pow[of 1023]
  by (simp add: train_eval float_eval)

text \<open>
  C8 (amended): for every model trained on fewer than \<open>2^52\<close> tokens with
  \<open>2^-200 \<le> k \<le> 2^200\<close>, every token pair and every \<open>V\<close> with \<open>1 \<le> V < 2^53\<close> (the size of
  a vocabulary union is at least 2, see C10), \<open>probability(w1, w2, V)\<close> returns a
  finite, strictly positive double.
\<close>

theorem C8_prob_positive:
  assumes "kk = Fin r" "two_pow (- 200) \<le> r" "r \<le> two_pow 200"
      and "1 \<le> V" "V < 2 ^ 53" "length tokens < 2 ^ 52"
  shows "\<exists>p. prob (train tokens kk) w1 w2 V = Inr (Fin p) \<and> 0 < p"
proof -
  have k: "in_rng (- 200) 200 kk" using assms(1-3) by (simp add: in_rng_def)
  obtain p where "prob (train tokens kk) w1 w2 V = Inr p" "in_rng (- 454) 401 p"
    using prob_train_in_rng[OF k assms(4-6)] by blast
  then show ?thesis using in_rng_pos[of "- 454" 401 p] by auto
qed

theorem C8_prob_positive_witness:
  "two_pow (- 200) \<le> 1 \<and> 1 \<le> two_pow 200 \<and> (1::int) \<le> 4 \<and> (4::int) < 2 ^ 53
   \<and> length [''a'', ''a'', ''b''] < 2 ^ 52
   \<and> (\<exists>p. prob (train [''a'', ''a'', ''b''] (Fin 1)) ''b'' ''a'' 4 = Inr (Fin p) \<and> 0 < p)"
  using C8_prob_positive [OF refl one_in_rng, of 4 "[''a'', ''a'', ''b'']" "''b''" "''a''"] one_in_rng
  by simp

subsection \<open>Labels\<close>

lemma label_gt: "fgt s (eps_neither sc) \<Longrightarrow> label sc s = ''EMINESCU''"
  by (simp add: label_def)

lemma label_lt:
  assumes "fle (Fin 0) (eps_neither sc)" "flt s (fneg (eps_neither sc))"
  shows "label sc s = ''STANESCU''"
proof -
  have "\<not> fgt s (eps_neither sc)"
    using assms by (cases "eps_neither sc"; cases s) (auto simp: fgt_def flt_def fle_def split: if_splits)
  then show ?thesis using assms(2) by (simp add: label_def)
qed

lemma label_boundary:
  assumes "fle (Fin 0) (eps_neither sc)"
  shows "label sc (eps_neither sc) = ''NEITHER''" "label sc (fneg (eps_neither sc)) = ''NEITHER''"
  using assms
  by (cases "eps_neither sc"; auto simp: label_def fgt_def flt_def fle_def split: if_splits)+

lemma label_above:
  assumes "is_finite (eps_neither sc)" "is_finite t" "val t = val (eps_neither sc) + d" "0 < d"
  shows "label sc t = ''EMINESCU''"
proof -
  have "fgt t (eps_neither sc)"
    using assms by (cases "eps_neither sc"; cases t) (auto simp: fgt_def)
  then show ?thesis by (rule label_gt)
qed

lemma label_below:
  assumes "fle (Fin 0) (eps_neither sc)"
      and "is_finite (eps_neither sc)" "is_finite t" "val t = - val (eps_neither sc) - d" "0 < d"
  shows "label sc t = ''STANESCU''"
proof -
  have "flt t (fneg (eps_neither sc))"
    using assms(2-5) by (cases "eps_neither sc"; cases t) (auto simp: fgt_def flt_def)
  then show ?thesis using assms(1) by (intro label_lt)
qed

lemma label_zero: "fle (Fin 0) (eps_neither sc) \<Longrightarrow> label sc (Fin 0) = ''NEITHER''"
  by (cases "eps_neither sc") (auto simp: label_def fgt_def flt_def fle_def split: if_splits)

subsection \<open>C5: the three-way label\<close>

text \<open>
  C5: for every score \<open>s\<close> and every \<open>epsNeither = e \<ge> 0\<close>, \<open>label(s)\<close> is the author-A
  label (\<^verbatim>\<open>EMINESCU\<close>) if \<open>s > e\<close>, the author-B label (\<^verbatim>\<open>STANESCU\<close>) if \<open>s < -e\<close>, and
  \<^verbatim>\<open>NEITHER\<close> otherwise; both boundaries \<open>e\<close> and \<open>-e\<close> give \<^verbatim>\<open>NEITHER\<close>; and for every
  \<open>d > 0\<close>, the label of the score \<open>e + d\<close> is A and that of \<open>-e - d\<close> is B. Scores and
  \<open>e\<close> range over all doubles, the comparisons being those of floats; \<open>e + d\<close> and
  \<open>-e - d\<close> are the scores with exactly these values.
\<close>

theorem C5_label_band:
  assumes "fle (Fin 0) (eps_neither sc)"
  shows "(fgt s (eps_neither sc) \<longrightarrow> label sc s = ''EMINESCU'')
       \<and> (flt s (fneg (eps_neither sc)) \<longrightarrow> label sc s = ''STANESCU'')
       \<and> (\<not> fgt s (eps_neither sc) \<and> \<not> flt s (fneg (eps_neither sc)) \<longrightarrow>
            label sc s = ''NEITHER'')
       \<and> label sc (eps_neither sc) = ''NEITHER''
       \<and> label sc (fneg (eps_neither sc)) = ''NEITHER''
       \<and> (\<forall>d>0. \<forall>t. is_finite (eps_neither sc) \<and> is_finite t \<longrightarrow>
             (val t = val (eps_neither sc) + d \<longrightarrow> label sc t = ''EMINESCU'')
           \<and> (val t = - val (eps_neither sc) - d \<longrightarrow> label sc t = ''STANESCU''))"
  using label_gt[of s sc] label_lt[OF assms, of s] label_boundary[OF assms]
        label_above[of sc] label_below[OF assms]
  by (auto simp: label_def)

theorem C5_label_band_witness:
  "fle (Fin 0) (eps_neither (make_scorer (train [] (Fin 1)) (train [] (Fin 1)) (Fin (1 / 4))))
   \<and> fgt (Fin 1) (Fin (1 / 4))
   \<and> label (make_scorer (train [] (Fin 1)) (train [] (Fin 1)) (Fin (1 / 4))) (Fin 1) = ''EMINESCU''
   \<and> flt (Fin (- 1)) (fneg (Fin (1 / 4)))
   \<and> label (make_scorer (train [] (Fin 1)) (train [] (Fin 1)) (Fin (1 / 4))) (Fin (- 1)) = ''STANESCU''
   \<and> label (make_scorer (train [] (Fin 1)) (train [] (Fin 1)) (Fin (1 / 4))) (Fin 0) = ''NEITHER''
   \<and> label (make_scorer (train [] (Fin 1)) (train [] (Fin 1)) (Fin (1 / 4))) (Fin (1 / 4)) = ''NEITHER''
   \<and> label (make_scorer (train [] (Fin 1)) (train [] (Fin 1)) (Fin (1 / 4))) (Fin (- (1 / 4)))
       = ''NEITHER''
   \<and> label (make_scorer (train [] (Fin 1)) (train [] (Fin 1)) (Fin (1 / 4))) (Fin (1 / 4 + 1 / 2))
       = ''EMINESCU''
   \<and> label (make_scorer (train [] (Fin 1)) (train [] (Fin 1)) (Fin (1 / 4))) (Fin (- (1 / 4) - 1 / 2))
       = ''STANESCU''"
proof -
  let ?sc = "make_scorer (train [] (Fin 1)) (train [] (Fin 1)) (Fin (1 / 4))"
  have e: "eps_neither ?sc = Fin (1 / 4)" by (simp add: make_scorer_def)
  have h: "fle (Fin 0) (eps_neither ?sc)" by (simp add: e fle_def fgt_def)
  note t = C5_label_band [OF h, of "Fin 1", unfolded e]
  note u = C5_label_band [OF h, of "Fin (- 1)", unfolded e]
  note z = C5_label_band [OF h, of "Fin 0", unfolded e]
  have g1: "fgt (Fin 1) (Fin (1 / 4))" by (simp add: fgt_def)
  have g2: "flt (Fin (- 1)) (fneg (Fin (1 / 4)))" by (simp add: flt_def fgt_def)
  have hi: "label ?sc (Fin 1) = ''EMINESCU''" using t g1 by blast
  have lo: "label ?sc (Fin (- 1)) = ''STANESCU''" using u g2 by blast
  have "\<not> fgt (Fin 0) (Fin (1 / 4)) \<and> \<not> flt (Fin 0) (fneg (Fin (1 / 4)))"
    by (simp add: flt_def fgt_def)
  then have mid: "label ?sc (Fin 0) = ''NEITHER''" using z by blast
  have b1: "label ?sc (Fin (1 / 4)) = ''NEITHER''" using t by blast
  have "label ?sc (fneg (Fin (1 / 4))) = ''NEITHER''" using t by blast
  then have b2: "label ?sc (Fin (- (1 / 4))) = ''NEITHER''" by simp
  from t have d: "\<forall>d>0. \<forall>t. is_finite (Fin (1 / 4)) \<and> is_finite t \<longrightarrow>
             (val t = val (Fin (1 / 4)) + d \<longrightarrow> label ?sc t = ''EMINESCU'')
           \<and> (val t = - val (Fin (1 / 4)) - d \<longrightarrow> label ?sc t = ''STANESCU'')" by blast
  have half: "(0::real) < 1 / 2" by simp
  have a1: "label ?sc (Fin (1 / 4 + 1 / 2)) = ''EMINESCU''"
    using d[rule_format, OF half, of "Fin (1 / 4 + 1 / 2)"] by simp
  have a2: "label ?sc (Fin (- (1 / 4) - 1 / 2)) = ''STANESCU''"
    using d[rule_format, OF half, of "Fin (- (1 / 4) - 1 / 2)"] by simp
  show ?thesis using h g1 g2 hi lo mid b1 b2 a1 a2 by blast
qed

subsection \<open>Scoring a window\<close>

lemma vocab_union_length:
  "length (vocab_union (make_scorer A B eps)) = card (m_vocab A \<union> m_vocab B)"
  by (simp add: make_scorer_def)

lemma train_vocab:
  "m_vocab (train tokens kk) = insert ''<s>'' (insert ''</s>'' (set tokens))"
  by (auto simp: train_def bracket_def Let_def)

lemma vocab_union_ge2:
  "2 \<le> length (vocab_union (make_scorer (train tA kA) (train tB kB) eps))"
proof -
  let ?U = "m_vocab (train tA kA) \<union> m_vocab (train tB kB)"
  have fin: "finite ?U" by (simp add: train_vocab)
  have sub: "{''<s>'', ''</s>''} \<subseteq> ?U" by (simp add: train_vocab)
  have "card {''<s>'', ''</s>''} \<le> card ?U" using card_mono[OF fin sub] .
  moreover have "card {''<s>'', ''</s>''} = 2" by simp
  ultimately show ?thesis by (simp add: vocab_union_length)
qed

lemma vocab_union_le:
  "length (vocab_union (make_scorer (train tA kA) (train tB kB) eps))
     \<le> length tA + length tB + 4"
proof -
  have "card (m_vocab (train tA kA) \<union> m_vocab (train tB kB))
          \<le> card (m_vocab (train tA kA)) + card (m_vocab (train tB kB))"
    by (rule card_Un_le)
  moreover have "card (m_vocab (train tA kA)) \<le> length (bracket tA)"
    by (simp add: train_def Let_def card_length)
  moreover have "card (m_vocab (train tB kB)) \<le> length (bracket tB)"
    by (simp add: train_def Let_def card_length)
  ultimately show ?thesis by (simp add: vocab_union_length bracket_def)
qed

lemma score_loop_sum_terms:
  "score_loop libm_log sc V bs s = sum_terms s (map (llr libm_log sc V) bs)"
proof (induction bs arbitrary: s)
  case Nil
  show ?case by simp
next
  case (Cons b bs)
  obtain w1 w2 where b: "b = (w1, w2)" by (cases b)
  show ?case
    by (simp add: b llr_def Cons.IH split: sum.splits)
qed

lemma score_window_sum_terms:
  "score_window libm_log sc tokens =
     sum_terms (Fin 0) (map (llr libm_log sc (int (length (vocab_union sc))))
                            (bigrams (bracket tokens)))"
  by (simp add: score_window_def Let_def score_loop_sum_terms)

lemma sum_terms_defined:
  "\<forall>t\<in>set ts. \<exists>v. t = Inr v \<Longrightarrow> sum_terms s ts = Inr (foldl fadd s (map projr ts))"
proof (induction ts arbitrary: s)
  case Nil
  show ?case by simp
next
  case (Cons t ts)
  then obtain v where t: "t = Inr v" by auto
  show ?case using Cons by (simp add: t)
qed

lemma math_log_defined:
  assumes "libm_contract libm_log" "in_rng (- 1074) 1024 (Fin r)"
  shows "\<exists>l. math_log libm_log (Fin r) = Inr l"
proof -
  have r: "0 < r" using in_rng_pos[OF assms(2)] by simp
  have f: "is_finite (libm_log (Fin r))"
    using assms by (simp add: libm_contract_def)
  have "\<not> is_zero (libm_log (Fin 2))" using assms(1) by (simp add: libm_contract_def)
  then show ?thesis using r f by (simp add: math_log_def m_log_def truediv_def)
qed

lemma llr_defined:
  assumes A: "\<And>w1 w2. \<exists>p. prob (model_A sc) w1 w2 V = Inr p \<and> in_rng (- 454) 401 p"
      and B: "\<And>w1 w2. \<exists>p. prob (model_B sc) w1 w2 V = Inr p \<and> in_rng (- 454) 401 p"
      and l: "libm_contract libm_log"
  shows "\<exists>pA pB q t. prob (model_A sc) w1 w2 V = Inr (Fin pA) \<and> 0 < pA
           \<and> prob (model_B sc) w1 w2 V = Inr (Fin pB) \<and> 0 < pB
           \<and> truediv (Fin pA) (Fin pB) = Inr (Fin q) \<and> 0 < q
           \<and> math_log libm_log (Fin q) = Inr t
           \<and> llr libm_log sc V (w1, w2) = Inr t"
proof -
  obtain fa where a: "prob (model_A sc) w1 w2 V = Inr fa" and ra: "in_rng (- 454) 401 fa"
    using A by blast
  obtain fb where b: "prob (model_B sc) w1 w2 V = Inr fb" and rb: "in_rng (- 454) 401 fb"
    using B by blast
  obtain pA where pA: "fa = Fin pA" "0 < pA" using in_rng_pos[OF ra] by blast
  obtain pB where pB: "fb = Fin pB" "0 < pB" using in_rng_pos[OF rb] by blast
  note d = fdiv_in_rng[OF ra rb]
  have nz: "\<not> is_zero fb" by (rule d(1)) simp_all
  have rq: "in_rng (- 454 - 401) (401 - - 454) (fdiv fa fb)" by (rule d(2)) simp_all
  then obtain q where q: "fdiv fa fb = Fin q" "0 < q" using in_rng_pos by blast
  have wq: "in_rng (- 1074) 1024 (Fin q)"
    using in_rng_widen[OF rq, of "- 1074" 1024] by (simp add: q(1))
  have td: "truediv (Fin pA) (Fin pB) = Inr (Fin q)"
    using nz q(1) by (simp add: truediv_def pA(1) pB(1))
  obtain t where t: "math_log libm_log (Fin q) = Inr t"
    using math_log_defined[where libm_log = libm_log, OF l wq] by blast
  have "llr libm_log sc V (w1, w2) = Inr t"
    using td t by (simp add: llr_def a b pA(1) pB(1))
  then show ?thesis using a b pA pB td q(2) t by blast
qed

lemma score_window_defined:
  assumes A: "\<And>w1 w2. \<exists>p. prob (model_A sc) w1 w2 (int (length (vocab_union sc))) = Inr p
                          \<and> in_rng (- 454) 401 p"
      and B: "\<And>w1 w2. \<exists>p. prob (model_B sc) w1 w2 (int (length (vocab_union sc))) = Inr p
                          \<and> in_rng (- 454) 401 p"
      and l: "libm_contract libm_log"
  shows "\<exists>r. score_window libm_log sc tokens = Inr r"
proof -
  let ?V = "int (length (vocab_union sc))"
  have "\<exists>v. llr libm_log sc ?V b = Inr v" for b
  proof -
    obtain w1 w2 where b: "b = (w1, w2)" by (cases b)
    show ?thesis using llr_defined[where libm_log = libm_log, OF A B l, of w1 w2] unfolding b by blast
  qed
  then have "\<forall>t\<in>set (map (llr libm_log sc ?V) (bigrams (bracket tokens))). \<exists>v. t = Inr v"
    by auto
  then show ?thesis
    unfolding score_window_sum_terms using sum_terms_defined by blast
qed

lemma trained_scorer_probs:
  assumes kA: "in_rng (- 200) 200 kA" and kB: "in_rng (- 200) 200 kB"
      and tA: "length tA < 2 ^ 51" and tB: "length tB < 2 ^ 51"
  shows "\<exists>p. prob (train tA kA) w1 w2
               (int (length (vocab_union (make_scorer (train tA kA) (train tB kB) eps)))) = Inr p
             \<and> in_rng (- 454) 401 p"
    and "\<exists>p. prob (train tB kB) w1 w2
               (int (length (vocab_union (make_scorer (train tA kA) (train tB kB) eps)))) = Inr p
             \<and> in_rng (- 454) 401 p"
proof -
  let ?V = "int (length (vocab_union (make_scorer (train tA kA) (train tB kB) eps)))"
  have a: "int (length tA) < 2 ^ 51" using tA by (metis of_nat_less_iff of_nat_numeral of_nat_power)
  have b: "int (length tB) < 2 ^ 51" using tB by (metis of_nat_less_iff of_nat_numeral of_nat_power)
  have "?V \<le> int (length tA) + int (length tB) + 4"
    using vocab_union_le[of tA kA tB kB eps] by linarith
  then have V53: "?V < 2 ^ 53" using a b by simp
  have V1: "1 \<le> ?V" using vocab_union_ge2[of tA kA tB kB eps] by linarith
  have lA: "length tA < 2 ^ 52" using tA by simp
  have lB: "length tB < 2 ^ 52" using tB by simp
  show "\<exists>p. prob (train tA kA) w1 w2 ?V = Inr p \<and> in_rng (- 454) 401 p"
    by (rule prob_train_in_rng[OF kA V1 V53 lA])
  show "\<exists>p. prob (train tB kB) w1 w2 ?V = Inr p \<and> in_rng (- 454) 401 p"
    by (rule prob_train_in_rng[OF kB V1 V53 lB])
qed

lemma score_window_make_scorer:
  assumes "in_rng (- 200) 200 kA" "in_rng (- 200) 200 kB"
      and "length tA < 2 ^ 51" "length tB < 2 ^ 51"
      and "libm_contract libm_log"
  shows "\<exists>r. score_window libm_log (make_scorer (train tA kA) (train tB kB) eps) tokens = Inr r"
proof (rule score_window_defined[where libm_log = libm_log, OF _ _ assms(5)])
  show "\<exists>p. prob (model_A (make_scorer (train tA kA) (train tB kB) eps)) w1 w2
              (int (length (vocab_union (make_scorer (train tA kA) (train tB kB) eps)))) = Inr p
            \<and> in_rng (- 454) 401 p" for w1 w2
    using trained_scorer_probs(1)[OF assms(1-4), of w1 w2 eps] by (simp add: make_scorer_def)
  show "\<exists>p. prob (model_B (make_scorer (train tA kA) (train tB kB) eps)) w1 w2
              (int (length (vocab_union (make_scorer (train tA kA) (train tB kB) eps)))) = Inr p
            \<and> in_rng (- 454) 401 p" for w1 w2
    using trained_scorer_probs(2)[OF assms(1-4), of w1 w2 eps] by (simp add: make_scorer_def)
qed

lemma exp_half_le_2: "exp (1 / 2 :: real) \<le> 2"
proof (rule ccontr)
  assume "\<not> exp (1 / 2 :: real) \<le> 2"
  then have "2 < exp (1 / 2 :: real)" by simp
  then have "2 * 2 < exp (1 / 2 :: real) * exp (1 / 2)" by (intro mult_strict_mono) simp_all
  also have "\<dots> = exp 1" by (simp add: exp_add [symmetric])
  finally show False using exp_le by simp
qed

lemma cr_log_two: "\<not> is_zero (cr_log (Fin 2))"
proof -
  have "1 / 2 \<le> ln (2::real)" using exp_half_le_2 ln_ge_iff[of 2 "1 / 2"] by simp
  moreover have "two_pow (- 1) = 1 / 2" by (simp add: two_pow_def powr_minus_divide)
  ultimately have lo: "two_pow (- 1) \<le> ln 2" by simp
  have hi: "ln (2::real) \<le> two_pow 0" using ln_le_minus_one[of "2::real"] by simp
  obtain r where "cr_log (Fin 2) = Fin r" "0 < r"
    using in_rng_pos[OF round_in_rng[OF lo hi]] by (auto simp: cr_log_def)
  then show ?thesis by (simp add: is_zero_def)
qed


lemma ln_two_le_one: "ln (2::real) \<le> 1"
  using ln_le_minus_one[of "2::real"] by simp

lemma ln_two_pow: "ln (two_pow e) = of_int e * ln 2"
  unfolding two_pow_def by (rule ln_powr)

lemma cr_log_finite:
  assumes "in_rng (- 1074) 1024 x"
  shows "is_finite (cr_log x)"
proof -
  obtain r where x: "x = Fin r" and r: "two_pow (- 1074) \<le> r" "r \<le> two_pow 1024"
    using in_rng_Fin[OF assms] by blast
  have rp: "0 < r" using r(1) two_pow_pos[of "- 1074"] by linarith
  have l2: "0 \<le> ln (2::real)" by simp
  have "ln r \<le> ln (two_pow 1024)" using r(2) rp by simp
  also have "\<dots> = 1024 * ln 2" by (simp add: ln_two_pow)
  also have "\<dots> \<le> 1024 * 1" using ln_two_le_one by (intro mult_left_mono) simp_all
  finally have hi: "ln r \<le> 1074" by simp
  have "- 1074 * 1 \<le> - 1074 * ln (2::real)" using ln_two_le_one by simp
  also have "\<dots> = ln (two_pow (- 1074))" by (simp add: ln_two_pow)
  also have "\<dots> \<le> ln r" using r(1) rp by simp
  finally have lo: "- 1074 \<le> ln r" by simp
  have "(1074::real) \<le> of_int (2 ^ nat 11)" by simp
  also have "\<dots> = two_pow 11" using two_pow_nat[of 11] by simp
  also have "\<dots> \<le> two_pow 1023" by (intro two_pow_mono) simp
  finally have "\<bar>ln r\<bar> \<le> two_pow 1023" using lo hi by linarith
  then show ?thesis using round_finite by (simp add: cr_log_def x)
qed

lemma cr_log_contract: "libm_contract cr_log"
  using cr_log_finite cr_log_two by (simp add: libm_contract_def)

lemma sentinel_card: "card {''<s>'', ''</s>''} = 2"
  by simp

lemma empty_scorer_V:
  "length (vocab_union (make_scorer (train [] kA) (train [] kB) eps)) = 2"
  by (simp add: vocab_union_length train_vocab)

lemma scorer_models [simp]:
  "model_A (make_scorer A B eps) = A" "model_B (make_scorer A B eps) = B"
  "eps_neither (make_scorer A B eps) = eps"
  by (simp_all add: make_scorer_def)



lemma one_rng: "in_rng (- 200) 200 (Fin 1)"
  using one_in_rng by (simp add: in_rng_def)

lemma demo_llr_defined:
  "\<exists>t. llr cr_log (make_scorer (train tA (Fin 1)) (train tB (Fin 1)) eps)
          (int (length (vocab_union (make_scorer (train tA (Fin 1)) (train tB (Fin 1)) eps)))) b
        = Inr t"
  if "length tA < 2 ^ 51" "length tB < 2 ^ 51"
proof -
  let ?sc = "make_scorer (train tA (Fin 1)) (train tB (Fin 1)) eps"
  obtain w1 w2 where b: "b = (w1, w2)" by (cases b)
  have A: "\<exists>p. prob (model_A ?sc) w1 w2 (int (length (vocab_union ?sc))) = Inr p
              \<and> in_rng (- 454) 401 p" for w1 w2
    using trained_scorer_probs(1)[OF one_rng one_rng that, of w1 w2 eps] by simp
  have B: "\<exists>p. prob (model_B ?sc) w1 w2 (int (length (vocab_union ?sc))) = Inr p
              \<and> in_rng (- 454) 401 p" for w1 w2
    using trained_scorer_probs(2)[OF one_rng one_rng that, of w1 w2 eps] by simp
  show ?thesis
    using llr_defined[where libm_log = cr_log and sc = ?sc, OF A B cr_log_contract, of w1 w2]
    unfolding b by blast
qed

subsection \<open>C2: the score of a window\<close>

text \<open>
  C2, as stated, covers every pair of trained models. With \<open>k = 0.0\<close> in both models a
  bigram that neither corpus contains has probability \<open>0.0\<close> under both, and the ratio
  \<open>pA / pB\<close> raises \<^verbatim>\<open>ZeroDivisionError\<close>: the window has no score.
\<close>

theorem C2_score_window_zero_k_raises:
  "score_window cr_log (make_scorer (train [] (Fin 0)) (train [] (Fin 0)) (Fin (1 / 4))) [''zz'']
     = Inl ZeroDivisionError"
  by (simp add: score_window_def empty_scorer_V train_eval float_eval)

text \<open>
  C2 (amended): for every scorer and window, \<open>scoreWindow(tokens)\<close> is the sum of the
  terms \<open>log2(probA(w1,w2,V) / probB(w1,w2,V))\<close> over the consecutive bigrams \<open>(w1, w2)\<close>
  of \<open><s>, tokens..., </s>\<close>, accumulated in double arithmetic from \<open>0.0\<close> in sequence
  order; it raises the error of the first term that cannot be computed, and when every
  term is defined it returns that sum. The result is a function of the scorer and the
  window only, so scoring the same window twice gives the same value.
\<close>

theorem C2_score_window_sum:
  "score_window libm_log sc tokens =
     sum_terms (Fin 0) (map (llr libm_log sc (int (length (vocab_union sc))))
                            (bigrams (bracket tokens)))
   \<and> ((\<forall>b\<in>set (bigrams (bracket tokens)).
          \<exists>t. llr libm_log sc (int (length (vocab_union sc))) b = Inr t) \<longrightarrow>
       score_window libm_log sc tokens =
         Inr (foldl fadd (Fin 0)
               (map (\<lambda>b. projr (llr libm_log sc (int (length (vocab_union sc))) b))
                    (bigrams (bracket tokens)))))"
proof (intro conjI impI)
  let ?V = "int (length (vocab_union sc))"
  show eq: "score_window libm_log sc tokens =
     sum_terms (Fin 0) (map (llr libm_log sc ?V) (bigrams (bracket tokens)))"
    by (rule score_window_sum_terms)
  assume "\<forall>b\<in>set (bigrams (bracket tokens)). \<exists>t. llr libm_log sc ?V b = Inr t"
  then have "\<forall>t\<in>set (map (llr libm_log sc ?V) (bigrams (bracket tokens))). \<exists>v. t = Inr v"
    by auto
  then have "sum_terms (Fin 0) (map (llr libm_log sc ?V) (bigrams (bracket tokens))) =
     Inr (foldl fadd (Fin 0) (map projr (map (llr libm_log sc ?V) (bigrams (bracket tokens)))))"
    by (rule sum_terms_defined)
  then show "score_window libm_log sc tokens =
         Inr (foldl fadd (Fin 0)
               (map (\<lambda>b. projr (llr libm_log sc ?V b)) (bigrams (bracket tokens))))"
    using eq by (simp add: comp_def)
qed

theorem C2_score_window_sum_witness:
  "(\<exists>t. llr cr_log (make_scorer (train [''a''] (Fin 1)) (train [''b''] (Fin 1)) (Fin (1 / 4)))
          (int (length (vocab_union
             (make_scorer (train [''a''] (Fin 1)) (train [''b''] (Fin 1)) (Fin (1 / 4))))))
          (''<s>'', ''a'') = Inr t)
   \<and> (\<exists>t. llr cr_log (make_scorer (train [''a''] (Fin 1)) (train [''b''] (Fin 1)) (Fin (1 / 4)))
          (int (length (vocab_union
             (make_scorer (train [''a''] (Fin 1)) (train [''b''] (Fin 1)) (Fin (1 / 4))))))
          (''a'', ''</s>'') = Inr t)
   \<and> score_window cr_log
         (make_scorer (train [''a''] (Fin 1)) (train [''b''] (Fin 1)) (Fin (1 / 4))) [''a'']
       = Inr (fadd (fadd (Fin 0)
           (projr (llr cr_log
              (make_scorer (train [''a''] (Fin 1)) (train [''b''] (Fin 1)) (Fin (1 / 4)))
              (int (length (vocab_union
                 (make_scorer (train [''a''] (Fin 1)) (train [''b''] (Fin 1)) (Fin (1 / 4))))))
              (''<s>'', ''a''))))
           (projr (llr cr_log
              (make_scorer (train [''a''] (Fin 1)) (train [''b''] (Fin 1)) (Fin (1 / 4)))
              (int (length (vocab_union
                 (make_scorer (train [''a''] (Fin 1)) (train [''b''] (Fin 1)) (Fin (1 / 4))))))
              (''a'', ''</s>''))))"
proof -
  let ?sc = "make_scorer (train [''a''] (Fin 1)) (train [''b''] (Fin 1)) (Fin (1 / 4))"
  let ?V = "int (length (vocab_union ?sc))"
  have d: "\<exists>t. llr cr_log ?sc ?V b = Inr t" for b
    by (rule demo_llr_defined) simp_all
  have bg: "bigrams (bracket [''a'']) = [(''<s>'', ''a''), (''a'', ''</s>'')]"
    by (simp add: bigrams_def bracket_def)
  have "\<forall>b\<in>set (bigrams (bracket [''a''])). \<exists>t. llr cr_log ?sc ?V b = Inr t"
    using d by blast
  then have "score_window cr_log ?sc [''a''] =
         Inr (foldl fadd (Fin 0)
               (map (\<lambda>b. projr (llr cr_log ?sc ?V b)) (bigrams (bracket [''a'']))))"
    using C2_score_window_sum[of cr_log ?sc "[''a'']"] by blast
  then show ?thesis using d unfolding bg by simp
qed

subsection \<open>C10: when scoring cannot fail\<close>

text \<open>
  C10, as stated, covers every \<open>k > 0\<close>. With \<open>k = 2^1023\<close> in both models \<open>k * V\<close>
  overflows to \<open>+inf\<close>, both probabilities of an unseen bigram are \<open>0.0\<close>, and the ratio
  \<open>pA / pB\<close> raises \<^verbatim>\<open>ZeroDivisionError\<close>.
\<close>

theorem C10_score_window_huge_k_raises:
  "score_window cr_log
     (make_scorer (train [] (Fin (two_pow 1023))) (train [] (Fin (two_pow 1023))) (Fin (1 / 4)))
     [''zz'']
   = Inl ZeroDivisionError"
  using round_huge[of 1] round_two_pow[of 1023]
  by (simp add: score_window_def empty_scorer_V train_eval float_eval)

text \<open>
  C10 (amended): for every pair of models trained by \<^verbatim>\<open>BigramModel.train\<close> on fewer
  than \<open>2^51\<close> tokens each with \<open>2^-200 \<le> k \<le> 2^200\<close>, \<open>V\<close> the size of the union of their
  vocabularies, and a C library whose \<open>log\<close> is finite on positive finite doubles and
  not zero at \<open>2.0\<close>: each vocabulary contains both sentinels, so \<open>V \<ge> 2\<close>; every smoothing denominator \<open>contextCounts[w1] + k*V\<close> is a
  finite, strictly positive double; both probabilities and their ratio \<open>pA / pB\<close> are
  finite and strictly positive, so \<open>math.log\<close> of the ratio is defined; and
  \<open>score_window\<close> returns a score for every window.
\<close>

theorem C10_score_window_total:
  assumes kA: "kA = Fin a" "two_pow (- 200) \<le> a" "a \<le> two_pow 200"
      and kB: "kB = Fin b" "two_pow (- 200) \<le> b" "b \<le> two_pow 200"
      and len: "length tA < 2 ^ 51" "length tB < 2 ^ 51"
      and libm: "libm_contract libm_log"
      and A: "A = train tA kA" and B: "B = train tB kB"
      and sc: "sc = make_scorer A B eps"
      and V: "V = int (length (vocab_union sc))"
  shows "''<s>'' \<in> m_vocab A \<and> ''</s>'' \<in> m_vocab A
       \<and> ''<s>'' \<in> m_vocab B \<and> ''</s>'' \<in> m_vocab B
       \<and> V = int (card (m_vocab A \<union> m_vocab B)) \<and> 2 \<le> V
       \<and> (\<forall>w1. \<exists>dA dB.
              smoothing_denominator (count_or_zero (m_context A) w1) kA V = Inr (Fin dA) \<and> 0 < dA
            \<and> smoothing_denominator (count_or_zero (m_context B) w1) kB V = Inr (Fin dB) \<and> 0 < dB)
       \<and> (\<forall>w1 w2. \<exists>pA pB q l.
              prob A w1 w2 V = Inr (Fin pA) \<and> 0 < pA
            \<and> prob B w1 w2 V = Inr (Fin pB) \<and> 0 < pB
            \<and> truediv (Fin pA) (Fin pB) = Inr (Fin q) \<and> 0 < q
            \<and> math_log libm_log (Fin q) = Inr l)
       \<and> (\<forall>tokens. \<exists>r. score_window libm_log sc tokens = Inr r)"
proof -
  have rA: "in_rng (- 200) 200 kA" using kA by (simp add: in_rng_def)
  have rB: "in_rng (- 200) 200 kB" using kB by (simp add: in_rng_def)
  have V2: "2 \<le> V" unfolding V sc A B using vocab_union_ge2[of tA kA tB kB eps] by simp
  then have V1: "1 \<le> V" by simp
  have la: "int (length tA) < 2 ^ 51" using len(1) by (metis of_nat_less_iff of_nat_numeral of_nat_power)
  have lb: "int (length tB) < 2 ^ 51" using len(2) by (metis of_nat_less_iff of_nat_numeral of_nat_power)
  have "V \<le> int (length tA) + int (length tB) + 4"
    unfolding V sc A B using vocab_union_le[of tA kA tB kB eps] by linarith
  then have V53: "V < 2 ^ 53" using la lb by simp
  have lA: "length tA < 2 ^ 52" and lB: "length tB < 2 ^ 52" using len by simp_all
  have voc: "''<s>'' \<in> m_vocab A \<and> ''</s>'' \<in> m_vocab A
       \<and> ''<s>'' \<in> m_vocab B \<and> ''</s>'' \<in> m_vocab B"
    by (simp add: A B train_vocab)
  have card: "V = int (card (m_vocab A \<union> m_vocab B))"
    by (simp add: V sc vocab_union_length)
  have den: "\<exists>dA dB.
              smoothing_denominator (count_or_zero (m_context A) w1) kA V = Inr (Fin dA) \<and> 0 < dA
            \<and> smoothing_denominator (count_or_zero (m_context B) w1) kB V = Inr (Fin dB) \<and> 0 < dB"
    for w1
  proof -
    obtain fa where fa: "smoothing_denominator (count_or_zero (m_context A) w1) kA V = Inr fa"
        "in_rng (- 200) 254 fa"
      using denominator_in_rng[OF _ _ V1 V53 rA, of "count_or_zero (m_context A) w1"]
            count_bounds(2)[OF lA, of w1]
      by (auto simp: A train_context_count)
    obtain fb where fb: "smoothing_denominator (count_or_zero (m_context B) w1) kB V = Inr fb"
        "in_rng (- 200) 254 fb"
      using denominator_in_rng[OF _ _ V1 V53 rB, of "count_or_zero (m_context B) w1"]
            count_bounds(2)[OF lB, of w1]
      by (auto simp: B train_context_count)
    show ?thesis using fa fb in_rng_pos[OF fa(2)] in_rng_pos[OF fb(2)] by auto
  qed
  have pA: "\<exists>p. prob (model_A sc) w1 w2 V = Inr p \<and> in_rng (- 454) 401 p" for w1 w2
    using prob_train_in_rng[OF rA V1 V53 lA] by (simp add: sc A)
  have pB: "\<exists>p. prob (model_B sc) w1 w2 V = Inr p \<and> in_rng (- 454) 401 p" for w1 w2
    using prob_train_in_rng[OF rB V1 V53 lB] by (simp add: sc B)
  have ratio: "\<exists>pA pB q l.
              prob A w1 w2 V = Inr (Fin pA) \<and> 0 < pA
            \<and> prob B w1 w2 V = Inr (Fin pB) \<and> 0 < pB
            \<and> truediv (Fin pA) (Fin pB) = Inr (Fin q) \<and> 0 < q
            \<and> math_log libm_log (Fin q) = Inr l" for w1 w2
    using llr_defined[where libm_log = libm_log and sc = sc, OF pA pB libm, of w1 w2]
    by (auto simp: sc)
  have tot: "\<exists>r. score_window libm_log sc tokens = Inr r" for tokens
    using score_window_defined[where libm_log = libm_log and sc = sc, OF _ _ libm]
          pA pB unfolding V by blast
  show ?thesis using voc card V2 den ratio tot by blast
qed

theorem C10_score_window_total_witness:
  "two_pow (- 200) \<le> 1 \<and> 1 \<le> two_pow 200
   \<and> length [''a''] < 2 ^ 51 \<and> length ([] :: string list) < 2 ^ 51
   \<and> libm_contract cr_log
   \<and> 2 \<le> int (length (vocab_union (make_scorer (train [''a''] (Fin 1)) (train [] (Fin 1)) (Fin 0))))
   \<and> (\<exists>pA pB q l.
        prob (train [''a''] (Fin 1)) ''a'' ''zz''
          (int (length (vocab_union (make_scorer (train [''a''] (Fin 1)) (train [] (Fin 1)) (Fin 0)))))
          = Inr (Fin pA) \<and> 0 < pA
      \<and> prob (train [] (Fin 1)) ''a'' ''zz''
          (int (length (vocab_union (make_scorer (train [''a''] (Fin 1)) (train [] (Fin 1)) (Fin 0)))))
          = Inr (Fin pB) \<and> 0 < pB
      \<and> truediv (Fin pA) (Fin pB) = Inr (Fin q) \<and> 0 < q
      \<and> math_log cr_log (Fin q) = Inr l)
   \<and> (\<exists>r. score_window cr_log (make_scorer (train [''a''] (Fin 1)) (train [] (Fin 1)) (Fin 0))
             [''a'', ''zz''] = Inr r)"
proof -
  have l1: "length [''a''] < 2 ^ 51" and l2: "length ([] :: string list) < 2 ^ 51" by simp_all
  note t = C10_score_window_total [where libm_log = cr_log,
      OF refl one_in_rng refl one_in_rng l1 l2 cr_log_contract refl refl refl refl, of "Fin 0"]
  show ?thesis using t one_in_rng l1 l2 cr_log_contract by blast
qed

subsection \<open>Ranges, slices and scans\<close>

lemma range_up_length:
  "0 < step \<Longrightarrow> length (range_up i stop step) = nat ((stop - i + step - 1) div step)"
proof (induction i stop step rule: range_up.induct)
  case (1 i stop step)
  show ?case
  proof (cases "i < stop")
    case True
    have ih: "length (range_up (i + step) stop step) = nat ((stop - (i + step) + step - 1) div step)"
      using 1 True by simp
    have "stop - i + step - 1 = (stop - i - 1) + step" by simp
    then have "(stop - i + step - 1) div step = (stop - i - 1) div step + 1"
      using 1(2) by (simp only: div_add_self2)
    moreover have "0 \<le> (stop - i - 1) div step" using True 1(2) by (simp add: pos_imp_zdiv_nonneg_iff)
    ultimately show ?thesis using True 1(2) ih
      by (subst range_up.simps) (simp add: nat_add_distrib)
  next
    case False
    then have x: "stop - i + step - 1 < step" by simp
    have "(stop - i + step - 1) div step \<le> 0"
    proof (cases "stop - i + step - 1 < 0")
      case True
      then show ?thesis using 1(2) by (simp add: pos_imp_zdiv_neg_iff less_imp_le)
    next
      case False
      then show ?thesis using x by (simp add: div_pos_pos_trivial)
    qed
    then show ?thesis using False by (subst range_up.simps) simp
  qed
qed

lemma range_up_nth:
  "0 < step \<Longrightarrow> j < length (range_up i stop step) \<Longrightarrow> range_up i stop step ! j = i + int j * step"
proof (induction i stop step arbitrary: j rule: range_up.induct)
  case (1 i stop step)
  show ?case
  proof (cases "i < stop")
    case True
    then have unf: "range_up i stop step = i # range_up (i + step) stop step"
      using 1(2) by (subst range_up.simps) simp
    show ?thesis
    proof (cases j)
      case 0
      then show ?thesis by (simp add: unf)
    next
      case (Suc j')
      then have "j' < length (range_up (i + step) stop step)" using 1(3) unf by simp
      then have "range_up (i + step) stop step ! j' = i + step + int j' * step"
        using 1(1)[of j'] True 1(2) by simp
      then show ?thesis by (simp add: unf Suc algebra_simps)
    qed
  next
    case False
    then have "range_up i stop step = []" by (subst range_up.simps) simp
    then show ?thesis using 1(3) by simp
  qed
qed

lemma range_up_bound:
  "0 < step \<Longrightarrow> x \<in> set (range_up i stop step) \<Longrightarrow> i \<le> x \<and> x < stop"
proof (induction i stop step rule: range_up.induct)
  case (1 i stop step)
  show ?case
  proof (cases "i < stop")
    case True
    then have unf: "range_up i stop step = i # range_up (i + step) stop step"
      using 1(2) by (subst range_up.simps) simp
    show ?thesis
    proof (cases "x = i")
      case True
      then show ?thesis using \<open>i < stop\<close> by simp
    next
      case False
      then have "x \<in> set (range_up (i + step) stop step)" using 1(3) unf by simp
      then have "i + step \<le> x \<and> x < stop" using 1(1) True 1(2) by simp
      then show ?thesis using 1(2) by simp
    qed
  next
    case False
    then have "range_up i stop step = []" by (subst range_up.simps) simp
    then show ?thesis using 1(3) by simp
  qed
qed

lemma py_slice_inside:
  assumes "0 \<le> a" "a \<le> b" "b \<le> int (length xs)"
  shows "py_slice xs a b = take (nat (b - a)) (drop (nat a) xs)"
    and "length (py_slice xs a b) = nat (b - a)"
proof -
  have s: "slice_index (int (length xs)) a = nat a" "slice_index (int (length xs)) b = nat b"
    using assms by (simp_all add: slice_index_def min_def)
  show "py_slice xs a b = take (nat (b - a)) (drop (nat a) xs)"
    using assms by (simp add: py_slice_def s drop_take nat_diff_distrib)
  then show "length (py_slice xs a b) = nat (b - a)" using assms by simp
qed

lemma rows_loop_total:
  assumes "\<forall>i\<in>set idxs. \<exists>r. score_window libm_log scorer (py_slice tokens i (i + window)) = Inr r"
  shows "rows_loop libm_log tokens scorer window idxs rows =
     Inr (rows @ map (\<lambda>i. make_row tokens scorer window i
                        (projr (score_window libm_log scorer (py_slice tokens i (i + window))))) idxs)"
  using assms
proof (induction idxs arbitrary: rows)
  case Nil
  show ?case by simp
next
  case (Cons i idxs)
  obtain r where r: "score_window libm_log scorer (py_slice tokens i (i + window)) = Inr r"
    using Cons.prems by auto
  have "\<forall>i\<in>set idxs. \<exists>r. score_window libm_log scorer (py_slice tokens i (i + window)) = Inr r"
    using Cons.prems by simp
  then show ?case by (simp add: r Cons.IH)
qed

lemma range_up_windows_length:
  assumes "1 \<le> step" "w \<le> n"
  shows "length (range_up 0 (n - w + 1) step) = nat ((n - w) div step) + 1"
proof -
  have "0 < step" using assms by simp
  then have "length (range_up 0 (n - w + 1) step) = nat ((n - w + 1 - 0 + step - 1) div step)"
    by (rule range_up_length)
  also have "n - w + 1 - 0 + step - 1 = (n - w) + step" by simp
  also have "((n - w) + step) div step = (n - w) div step + 1"
    using \<open>0 < step\<close> by (simp only: div_add_self2)
  also have "nat ((n - w) div step + 1) = nat ((n - w) div step) + 1"
    using assms \<open>0 < step\<close> by (simp add: nat_add_distrib pos_imp_zdiv_nonneg_iff)
  finally show ?thesis .
qed

lemma sliding_window_scores_rows:
  assumes tot: "\<forall>i. 0 \<le> i \<and> i + w \<le> int (length tokens) \<longrightarrow>
                  (\<exists>r. score_window libm_log scorer (py_slice tokens i (i + w)) = Inr r)"
      and n: "2 \<le> length tokens" and step: "1 \<le> step"
      and w: "w = max 2 (min window (int (length tokens)))"
  shows "\<exists>rows. sliding_window_scores libm_log tokens scorer window step = Inr rows
       \<and> w \<le> int (length tokens)
       \<and> length rows = nat ((int (length tokens) - w) div step) + 1
       \<and> (\<forall>j<length rows.
             r_start (rows ! j) = int j * step
           \<and> r_end (rows ! j) - r_start (rows ! j) = w
           \<and> r_start (rows ! j) + w \<le> int (length tokens)
           \<and> length (py_slice tokens (r_start (rows ! j)) (r_end (rows ! j))) = nat w)
       \<and> (\<forall>j. int j * step + w \<le> int (length tokens) \<longrightarrow> j < length rows)"
proof -
  let ?n = "int (length tokens)"
  let ?idxs = "range_up 0 (?n - w + 1) step"
  define rows where
    "rows = map (\<lambda>i. make_row tokens scorer w i
                        (projr (score_window libm_log scorer (py_slice tokens i (i + w))))) ?idxs"
  have pos: "0 < step" using step by simp
  have wn: "w \<le> ?n" and w2: "2 \<le> w" using n w by simp_all
  have sc: "\<forall>i\<in>set ?idxs. \<exists>r. score_window libm_log scorer (py_slice tokens i (i + w)) = Inr r"
  proof
    fix i assume "i \<in> set ?idxs"
    then have "0 \<le> i \<and> i < ?n - w + 1" by (rule range_up_bound[OF pos])
    then show "\<exists>r. score_window libm_log scorer (py_slice tokens i (i + w)) = Inr r"
      using tot by simp
  qed
  have res: "sliding_window_scores libm_log tokens scorer window step = Inr rows"
    using n step
    by (simp add: sliding_window_scores_def Let_def py_range_def w [symmetric]
          rows_loop_total[OF sc] rows_def)
  have lr: "length rows = length ?idxs" by (simp add: rows_def)
  have len: "length rows = nat ((?n - w) div step) + 1"
    unfolding lr by (rule range_up_windows_length[OF step wn])
  have each: "r_start (rows ! j) = int j * step
           \<and> r_end (rows ! j) - r_start (rows ! j) = w
           \<and> r_start (rows ! j) + w \<le> ?n
           \<and> length (py_slice tokens (r_start (rows ! j)) (r_end (rows ! j))) = nat w"
    if "j < length rows" for j
  proof -
    have j: "j < length ?idxs" using that lr by simp
    have nth: "?idxs ! j = int j * step" using range_up_nth[OF pos j] by simp
    have "?idxs ! j \<in> set ?idxs" using j by simp
    then have b: "0 \<le> ?idxs ! j \<and> ?idxs ! j < ?n - w + 1" by (rule range_up_bound[OF pos])
    have st: "r_start (rows ! j) = int j * step"
      and en: "r_end (rows ! j) = int j * step + w"
      using j by (simp_all add: rows_def make_row_def nth)
    have "length (py_slice tokens (int j * step) (int j * step + w))
            = nat (int j * step + w - int j * step)"
      using b w2 by (intro py_slice_inside(2)) (simp_all add: nth)
    then show ?thesis using b by (simp add: st en nth)
  qed
  have all: "j < length rows" if j: "int j * step + w \<le> ?n" for j
  proof -
    have "int j * step div step \<le> (?n - w) div step"
      using j pos by (intro zdiv_mono1) simp_all
    then have "int j \<le> (?n - w) div step" using pos by simp
    then show ?thesis unfolding len by linarith
  qed
  show ?thesis using res wn len each all by blast
qed

lemma demo_scorer_total:
  "\<exists>r. score_window cr_log (make_scorer (train [''a''] (Fin 1)) (train [''b''] (Fin 1)) (Fin 0)) w
        = Inr r"
  by (rule score_window_make_scorer[where libm_log = cr_log, OF one_rng one_rng _ _ cr_log_contract]) simp_all

lemma zero_k_window:
  "score_window cr_log (make_scorer (train [] (Fin 0)) (train [] (Fin 0)) (Fin (1 / 4)))
     [''a'', ''zz''] = Inl ZeroDivisionError"
  by (simp add: score_window_def empty_scorer_V train_eval float_eval)

subsection \<open>C3: the windows of a scan\<close>

text \<open>
  C3, as stated, promises the reports for every token sequence with \<open>n \<ge> 2\<close> and
  \<open>step \<ge> 1\<close>. A scan scores each window, and an exception of the scorer leaves the scan:
  with a scorer whose models have \<open>k = 0.0\<close> the window \<open>a zz\<close> raises
  \<^verbatim>\<open>ZeroDivisionError\<close> and no report is produced.
\<close>

theorem C3_scan_zero_k_raises:
  "sliding_window_scores cr_log [''a'', ''zz'']
     (make_scorer (train [] (Fin 0)) (train [] (Fin 0)) (Fin (1 / 4))) 2 1
   = Inl ZeroDivisionError"
  by (simp add: sliding_window_scores_def py_range_def range_up.simps py_slice_def
        slice_index_def zero_k_window)

text \<open>
  C3 (amended): for every token sequence with \<open>n \<ge> 2\<close> tokens, effective window
  \<open>w = max(2, min(window, n))\<close> (so \<open>w \<le> n\<close>) and stride \<open>step \<ge> 1\<close>, if scoring raises for
  no window of \<open>w\<close> consecutive tokens (C10 gives models for which it never does), \<open>scan\<close>
  returns exactly \<open>floor((n - w) / step) + 1\<close> reports; report \<open>j\<close> starts at \<open>j * step\<close>,
  has \<open>end - start = w\<close>, lies inside the sequence and covers exactly \<open>w\<close> tokens; and
  every start \<open>j * step\<close> with \<open>j * step + w \<le> n\<close> is reported.
\<close>

theorem C3_window_count:
  assumes "\<forall>i. 0 \<le> i \<and> i + w \<le> int (length tokens) \<longrightarrow>
             (\<exists>r. score_window libm_log scorer (py_slice tokens i (i + w)) = Inr r)"
      and "2 \<le> length tokens" and "1 \<le> step"
      and "w = max 2 (min window (int (length tokens)))"
  shows "\<exists>rows. sliding_window_scores libm_log tokens scorer window step = Inr rows
       \<and> w \<le> int (length tokens)
       \<and> length rows = nat ((int (length tokens) - w) div step) + 1
       \<and> (\<forall>j<length rows.
             r_start (rows ! j) = int j * step
           \<and> r_end (rows ! j) - r_start (rows ! j) = w
           \<and> r_start (rows ! j) + w \<le> int (length tokens)
           \<and> length (py_slice tokens (r_start (rows ! j)) (r_end (rows ! j))) = nat w)
       \<and> (\<forall>j. int j * step + w \<le> int (length tokens) \<longrightarrow> j < length rows)"
  using sliding_window_scores_rows[where libm_log = libm_log, OF assms] .

theorem C3_window_count_witness:
  "(\<forall>w. \<exists>r. score_window cr_log
              (make_scorer (train [''a''] (Fin 1)) (train [''b''] (Fin 1)) (Fin 0)) w = Inr r)
   \<and> 2 \<le> length [''a'', ''b'', ''c'', ''d'', ''e'']
   \<and> (1::int) \<le> 2
   \<and> (2::int) = max 2 (min 2 (int (length [''a'', ''b'', ''c'', ''d'', ''e''])))
   \<and> (\<exists>rows. sliding_window_scores cr_log [''a'', ''b'', ''c'', ''d'', ''e'']
                (make_scorer (train [''a''] (Fin 1)) (train [''b''] (Fin 1)) (Fin 0)) 2 2 = Inr rows
         \<and> length rows = 2
         \<and> r_start (rows ! 0) = 0 \<and> r_end (rows ! 0) = 2
         \<and> r_start (rows ! 1) = 2 \<and> r_end (rows ! 1) = 4)"
proof -
  let ?toks = "[''a'', ''b'', ''c'', ''d'', ''e'']"
  let ?sc = "make_scorer (train [''a''] (Fin 1)) (train [''b''] (Fin 1)) (Fin 0)"
  have tot: "\<forall>w. \<exists>r. score_window cr_log ?sc w = Inr r" using demo_scorer_total by blast
  then have h: "\<forall>i. 0 \<le> i \<and> i + 2 \<le> int (length ?toks) \<longrightarrow>
             (\<exists>r. score_window cr_log ?sc (py_slice ?toks i (i + 2)) = Inr r)" by blast
  have n: "2 \<le> length ?toks" by simp
  have st: "(1::int) \<le> 2" by simp
  have w: "(2::int) = max 2 (min 2 (int (length ?toks)))" by simp
  obtain rows where
    res: "sliding_window_scores cr_log ?toks ?sc 2 2 = Inr rows"
    and len: "length rows = nat ((int (length ?toks) - 2) div 2) + 1"
    and each: "\<forall>j<length rows. r_start (rows ! j) = int j * 2
           \<and> r_end (rows ! j) - r_start (rows ! j) = 2
           \<and> r_start (rows ! j) + 2 \<le> int (length ?toks)
           \<and> length (py_slice ?toks (r_start (rows ! j)) (r_end (rows ! j))) = nat 2"
    using C3_window_count[where libm_log = cr_log, OF h n st w] by blast
  have l2: "length rows = 2" using len by simp
  have "r_start (rows ! 0) = 0 \<and> r_end (rows ! 0) = 2"
    using each[rule_format, of 0] l2 by simp
  moreover have "r_start (rows ! 1) = 2 \<and> r_end (rows ! 1) = 4"
    using each[rule_format, of 1] l2 by simp
  ultimately show ?thesis using tot res l2 by auto
qed

subsection \<open>C4: short inputs and the clamped window\<close>

text \<open>
  C4, as stated, promises exactly one window for \<open>2 \<le> n < window\<close>. With the same scorer
  (\<open>k = 0.0\<close>), two tokens and a requested window of 20, the single clamped window
  raises \<^verbatim>\<open>ZeroDivisionError\<close> and the scan produces nothing.
\<close>

theorem C4_scan_clamped_zero_k_raises:
  "sliding_window_scores cr_log [''a'', ''zz'']
     (make_scorer (train [] (Fin 0)) (train [] (Fin 0)) (Fin (1 / 4))) 20 1
   = Inl ZeroDivisionError"
  by (simp add: sliding_window_scores_def py_range_def range_up.simps py_slice_def
        slice_index_def zero_k_window)

text \<open>
  C4 (amended): for every token sequence with fewer than 2 tokens \<open>scan\<close> returns the
  empty list and raises nothing, whatever the scorer, window and step. For \<open>n \<ge> 2\<close>
  tokens and stride \<open>step \<ge> 1\<close>, if scoring raises for no window of the effective width
  \<open>max(2, min(window, n))\<close>: when \<open>n\<close> is below the requested window the effective window
  is \<open>n\<close> and exactly one report is produced, spanning \<open>[0, n)\<close>; and whatever window is
  requested, at least one report is produced.
\<close>

theorem C4_short_inputs:
  "(length tokens < 2 \<longrightarrow> sliding_window_scores libm_log tokens scorer window step = Inr [])
   \<and> ((\<forall>i. 0 \<le> i \<and> i + max 2 (min window (int (length tokens))) \<le> int (length tokens) \<longrightarrow>
          (\<exists>r. score_window libm_log scorer
                 (py_slice tokens i (i + max 2 (min window (int (length tokens))))) = Inr r))
        \<and> 2 \<le> length tokens \<and> 1 \<le> step \<longrightarrow>
        (int (length tokens) < window \<longrightarrow>
           max 2 (min window (int (length tokens))) = int (length tokens)
         \<and> (\<exists>row. sliding_window_scores libm_log tokens scorer window step = Inr [row]
                \<and> r_start row = 0 \<and> r_end row = int (length tokens)))
      \<and> (\<exists>rows. sliding_window_scores libm_log tokens scorer window step = Inr rows
                \<and> rows \<noteq> []))"
proof (intro conjI impI)
  assume "length tokens < 2"
  then show "sliding_window_scores libm_log tokens scorer window step = Inr []"
    by (simp add: sliding_window_scores_def)
next
  let ?w = "max 2 (min window (int (length tokens)))"
  assume h: "(\<forall>i. 0 \<le> i \<and> i + ?w \<le> int (length tokens) \<longrightarrow>
          (\<exists>r. score_window libm_log scorer (py_slice tokens i (i + ?w)) = Inr r))
        \<and> 2 \<le> length tokens \<and> 1 \<le> step"
  obtain rows where "sliding_window_scores libm_log tokens scorer window step = Inr rows"
    and "length rows = nat ((int (length tokens) - ?w) div step) + 1"
    using sliding_window_scores_rows[where libm_log = libm_log and w = ?w and window = window
            and tokens = tokens and scorer = scorer and step = step] h by blast
  then show "\<exists>rows. sliding_window_scores libm_log tokens scorer window step = Inr rows
                \<and> rows \<noteq> []"
    by (intro exI[of _ rows]) auto
next
  assume "int (length tokens) < window"
    and "(\<forall>i. 0 \<le> i \<and> i + max 2 (min window (int (length tokens))) \<le> int (length tokens) \<longrightarrow>
          (\<exists>r. score_window libm_log scorer
                 (py_slice tokens i (i + max 2 (min window (int (length tokens))))) = Inr r))
        \<and> 2 \<le> length tokens \<and> 1 \<le> step"
  then show "max 2 (min window (int (length tokens))) = int (length tokens)" by simp
next
  let ?w = "max 2 (min window (int (length tokens)))"
  assume h: "(\<forall>i. 0 \<le> i \<and> i + ?w \<le> int (length tokens) \<longrightarrow>
          (\<exists>r. score_window libm_log scorer (py_slice tokens i (i + ?w)) = Inr r))
        \<and> 2 \<le> length tokens \<and> 1 \<le> step"
     and big: "int (length tokens) < window"
  have w: "?w = int (length tokens)" using h big by simp
  obtain rows where res: "sliding_window_scores libm_log tokens scorer window step = Inr rows"
    and len: "length rows = nat ((int (length tokens) - ?w) div step) + 1"
    and each: "\<forall>j<length rows. r_start (rows ! j) = int j * step
           \<and> r_end (rows ! j) - r_start (rows ! j) = ?w"
    using sliding_window_scores_rows[where libm_log = libm_log and w = ?w and window = window
            and tokens = tokens and scorer = scorer and step = step] h by blast
  have l1: "length rows = 1" using len by (simp add: w)
  then obtain row where rows: "rows = [row]" by (cases rows) auto
  have "r_start row = 0 \<and> r_end row = int (length tokens)"
    using each[rule_format, of 0] l1 rows w by simp
  then show "\<exists>row. sliding_window_scores libm_log tokens scorer window step = Inr [row]
                \<and> r_start row = 0 \<and> r_end row = int (length tokens)"
    using res rows by blast
qed

theorem C4_short_inputs_witness:
  "length [''a''] < 2
   \<and> sliding_window_scores cr_log [''a'']
        (make_scorer (train [''a''] (Fin 1)) (train [''b''] (Fin 1)) (Fin 0)) 20 1 = Inr []
   \<and> (\<forall>w. \<exists>r. score_window cr_log
                (make_scorer (train [''a''] (Fin 1)) (train [''b''] (Fin 1)) (Fin 0)) w = Inr r)
   \<and> 2 \<le> length [''a'', ''b'', ''c''] \<and> (1::int) \<le> 1
   \<and> int (length [''a'', ''b'', ''c'']) < 20
   \<and> (\<exists>row. sliding_window_scores cr_log [''a'', ''b'', ''c'']
               (make_scorer (train [''a''] (Fin 1)) (train [''b''] (Fin 1)) (Fin 0)) 20 1 = Inr [row]
              \<and> r_start row = 0 \<and> r_end row = 3)"
proof -
  let ?sc = "make_scorer (train [''a''] (Fin 1)) (train [''b''] (Fin 1)) (Fin 0)"
  have tot: "\<forall>w. \<exists>r. score_window cr_log ?sc w = Inr r" using demo_scorer_total by blast
  note short = C4_short_inputs [of "[''a'']" cr_log ?sc 20 1, THEN conjunct1]
  note long = C4_short_inputs [of "[''a'', ''b'', ''c'']" cr_log ?sc 20 1, THEN conjunct2]
  have "\<exists>row. sliding_window_scores cr_log [''a'', ''b'', ''c''] ?sc 20 1 = Inr [row]
              \<and> r_start row = 0 \<and> r_end row = int (length [''a'', ''b'', ''c''])"
    using long tot by force
  then show ?thesis using short tot by simp
qed

subsection \<open>Segments\<close>

lemma tiles_snoc:
  "tiles a (segs @ [(l, s, e, t)]) b = (tiles a segs s \<and> s < e \<and> e = b)"
  by (induction segs arbitrary: a) auto

lemma tiles_le: "tiles a segs b \<Longrightarrow> a \<le> b"
  by (induction segs arbitrary: a) fastforce+

lemma label_changes_snoc:
  "label_changes (xs @ [x]) = label_changes xs + (if xs \<noteq> [] \<and> last xs \<noteq> x then 1 else 0)"
  by (induction xs rule: label_changes.induct) auto

lemma label_changes_take_Suc:
  assumes "0 < i" "i < length labels"
  shows "label_changes (take (Suc i) labels) =
         label_changes (take i labels) + (if labels ! i \<noteq> labels ! (i - 1) then 1 else 0)"
proof -
  have ne: "take i labels \<noteq> []" using assms by auto
  have li: "length (take i labels) = i" using assms by simp
  have "last (take i labels) = take i labels ! (i - 1)"
    using last_conv_nth[OF ne] by (simp only: li)
  also have "\<dots> = labels ! (i - 1)" using assms by simp
  finally have "last (take i labels) = labels ! (i - 1)" .
  then show ?thesis using assms ne
    by (auto simp: take_Suc_conv_app_nth label_changes_snoc)
qed

lemma seg_loop_inv:
  assumes "n \<le> length labels" "i \<le> n" "0 < i" "start < i"
      and "tiles 0 segs start" "cur = labels ! (i - 1)"
      and "length segs = label_changes (take i labels)"
      and "list_all (seg_uniform tokens labels) segs"
      and "list_all (\<lambda>p. labels ! p = cur) [start..<i]"
  shows "\<exists>segs' cur' start'.
           seg_loop tokens labels [i..<n] (segs, cur, start) = Inr (segs', cur', start')
         \<and> tiles 0 segs' start' \<and> start' < n
         \<and> length segs' = label_changes (take n labels)
         \<and> list_all (seg_uniform tokens labels) segs'
         \<and> list_all (\<lambda>p. labels ! p = cur') [start'..<n]"
  using assms
proof (induction "n - i" arbitrary: i segs cur start)
  case 0
  then have "i = n" by simp
  then show ?case using 0 by simp
next
  case (Suc d)
  then have lt: "i < n" by simp
  then have il: "i < length labels" using Suc.prems(1) by simp
  have upt: "[i..<n] = i # [Suc i..<n]" using lt by (simp add: upt_conv_Cons)
  have d: "d = n - Suc i" using Suc.hyps(2) by simp
  have ch: "label_changes (take (Suc i) labels) =
         label_changes (take i labels) + (if labels ! i \<noteq> labels ! (i - 1) then 1 else 0)"
    by (rule label_changes_take_Suc[OF Suc.prems(3) il])
  show ?case
  proof (cases "labels ! i \<noteq> cur")
    case True
    let ?sg = "(cur, start, i, join '' '' (py_slice tokens (int start) (int i)))"
    have step: "seg_loop tokens labels [i..<n] (segs, cur, start) =
                seg_loop tokens labels [Suc i..<n] (segs @ [?sg], labels ! i, i)"
      using True il by (simp add: upt)
    have "\<exists>segs' cur' start'.
           seg_loop tokens labels [Suc i..<n] (segs @ [?sg], labels ! i, i) = Inr (segs', cur', start')
         \<and> tiles 0 segs' start' \<and> start' < n
         \<and> length segs' = label_changes (take n labels)
         \<and> list_all (seg_uniform tokens labels) segs'
         \<and> list_all (\<lambda>p. labels ! p = cur') [start'..<n]"
    proof (rule Suc.hyps(1)[OF d Suc.prems(1)])
      show "Suc i \<le> n" using lt by simp
      show "0 < Suc i" by simp
      show "i < Suc i" by simp
      show "tiles 0 (segs @ [?sg]) i" using Suc.prems(4,5) by (simp add: tiles_snoc)
      show "labels ! i = labels ! (Suc i - 1)" by simp
      show "length (segs @ [?sg]) = label_changes (take (Suc i) labels)"
        using True Suc.prems(6,7) ch by simp
      show "list_all (seg_uniform tokens labels) (segs @ [?sg])"
        using Suc.prems(8,9) by (simp add: seg_uniform_def)
      show "list_all (\<lambda>p. labels ! p = labels ! i) [i..<Suc i]" by simp
    qed
    then show ?thesis by (simp only: step)
  next
    case False
    have step: "seg_loop tokens labels [i..<n] (segs, cur, start) =
                seg_loop tokens labels [Suc i..<n] (segs, cur, start)"
      using False il by (simp add: upt)
    have "\<exists>segs' cur' start'.
           seg_loop tokens labels [Suc i..<n] (segs, cur, start) = Inr (segs', cur', start')
         \<and> tiles 0 segs' start' \<and> start' < n
         \<and> length segs' = label_changes (take n labels)
         \<and> list_all (seg_uniform tokens labels) segs'
         \<and> list_all (\<lambda>p. labels ! p = cur') [start'..<n]"
    proof (rule Suc.hyps(1)[OF d Suc.prems(1)])
      show "Suc i \<le> n" using lt by simp
      show "0 < Suc i" by simp
      show "start < Suc i" using Suc.prems(4) by simp
      show "tiles 0 segs start" by (rule Suc.prems(5))
      show "cur = labels ! (Suc i - 1)" using False by simp
      show "length segs = label_changes (take (Suc i) labels)"
        using False Suc.prems(6,7) ch by simp
      show "list_all (seg_uniform tokens labels) segs" by (rule Suc.prems(8))
      show "list_all (\<lambda>p. labels ! p = cur) [start..<Suc i]"
        using Suc.prems(4,9) False by simp
    qed
    then show ?thesis by (simp only: step)
  qed
qed

lemma tiles_concat:
  "tiles a segs b \<Longrightarrow> b \<le> length tokens \<Longrightarrow>
     concat (map (seg_tokens tokens) segs) = take (b - a) (drop a tokens)"
proof (induction segs arbitrary: a)
  case Nil
  then show ?case by simp
next
  case (Cons sg segs)
  obtain l s e t where sg: "sg = (l, s, e, t)" by (cases sg)
  have s: "s = a" and se: "s < e" and rest: "tiles e segs b" using Cons.prems(1) sg by simp_all
  have eb: "e \<le> b" by (rule tiles_le[OF rest])
  have sl: "py_slice tokens (int a) (int e) = take (e - a) (drop a tokens)"
    using py_slice_inside(1)[of "int a" "int e" tokens] s se eb Cons.prems(2)
    by (simp add: nat_diff_distrib)
  have ih: "concat (map (seg_tokens tokens) segs) = take (b - e) (drop e tokens)"
    by (rule Cons.IH[OF rest Cons.prems(2)])
  have "take (b - a) (drop a tokens) = take ((e - a) + (b - e)) (drop a tokens)"
    using s se eb by simp
  also have "\<dots> = take (e - a) (drop a tokens) @ take (b - e) (drop (e - a) (drop a tokens))"
    by (rule take_add)
  also have "drop (e - a) (drop a tokens) = drop e tokens" using s se by simp
  finally have split: "take (b - a) (drop a tokens) =
      take (e - a) (drop a tokens) @ take (b - e) (drop e tokens)" .
  have head: "seg_tokens tokens sg = take (e - a) (drop a tokens)"
    using sl by (simp add: sg seg_tokens_def s)
  show ?case by (simp add: head ih split)
qed

lemma segments_total:
  assumes "tokens \<noteq> []" "length labels = length tokens"
  shows "\<exists>segs. segments tokens labels = Inr segs
       \<and> tiles 0 segs (length tokens)
       \<and> concat (map (seg_tokens tokens) segs) = tokens
       \<and> length segs = 1 + label_changes labels
       \<and> list_all (seg_uniform tokens labels) segs"
proof -
  let ?n = "length tokens"
  obtain l0 ls where labels: "labels = l0 # ls" using assms by (cases labels) auto
  have n: "1 \<le> ?n" using assms(1) by (cases tokens) auto
  have "\<exists>segs' cur' start'.
           seg_loop tokens labels [1..<?n] ([], l0, 0) = Inr (segs', cur', start')
         \<and> tiles 0 segs' start' \<and> start' < ?n
         \<and> length segs' = label_changes (take ?n labels)
         \<and> list_all (seg_uniform tokens labels) segs'
         \<and> list_all (\<lambda>p. labels ! p = cur') [start'..<?n]"
    by (rule seg_loop_inv) (use assms n in \<open>simp_all add: labels\<close>)
  then obtain segs' cur' start' where
    loop: "seg_loop tokens labels [1..<?n] ([], l0, 0) = Inr (segs', cur', start')"
    and t: "tiles 0 segs' start'" and lt: "start' < ?n"
    and len: "length segs' = label_changes (take ?n labels)"
    and uni: "list_all (seg_uniform tokens labels) segs'"
    and cur: "list_all (\<lambda>p. labels ! p = cur') [start'..<?n]"
    by blast
  let ?last = "(cur', start', ?n, join '' '' (py_slice tokens (int start') (int ?n)))"
  let ?segs = "segs' @ [?last]"
  have res: "segments tokens labels = Inr ?segs"
    using assms(1) loop by (simp add: segments_def labels)
  have tl: "tiles 0 ?segs ?n" using t lt by (simp add: tiles_snoc)
  have "concat (map (seg_tokens tokens) ?segs) = take (?n - 0) (drop 0 tokens)"
    by (rule tiles_concat[OF tl]) simp
  then have cc: "concat (map (seg_tokens tokens) ?segs) = tokens" by simp
  have ln: "length ?segs = 1 + label_changes labels" using len assms(2) by simp
  have un: "list_all (seg_uniform tokens labels) ?segs"
    using uni cur by (simp add: seg_uniform_def)
  show ?thesis using res tl cc ln un by blast
qed

subsection \<open>C7: segments tile the token sequence\<close>

text \<open>
  C7: for every non-empty token sequence and label sequence of the same length, \<open>build\<close>
  returns segments that tile the positions \<open>0 .. n\<close> from left to right: the first starts
  at 0, each is non-empty and starts where its predecessor ends, the last ends at \<open>n\<close>
  (so they are contiguous, never overlap and cover every position exactly once).
  Concatenating the token ranges of the segments in order gives the token sequence
  back, the number of segments is 1 + the number of adjacent label changes, and each
  segment carries the label of all its positions and the joined text of its range.
\<close>

theorem C7_segments_tile:
  assumes "tokens \<noteq> []" "length labels = length tokens"
  shows "\<exists>segs. segments tokens labels = Inr segs
       \<and> tiles 0 segs (length tokens)
       \<and> concat (map (seg_tokens tokens) segs) = tokens
       \<and> length segs = 1 + label_changes labels
       \<and> list_all (seg_uniform tokens labels) segs"
  using segments_total[OF assms] .

theorem C7_segments_tile_witness:
  "[''a'', ''b'', ''c'', ''d''] \<noteq> []
   \<and> length [''N'', ''N'', ''E'', ''N''] = length [''a'', ''b'', ''c'', ''d'']
   \<and> segments [''a'', ''b'', ''c'', ''d''] [''N'', ''N'', ''E'', ''N'']
       = Inr [(''N'', 0, 2, ''a b''), (''E'', 2, 3, ''c''), (''N'', 3, 4, ''d'')]
   \<and> label_changes [''N'', ''N'', ''E'', ''N''] = 2
   \<and> (\<exists>segs. segments [''a'', ''b'', ''c'', ''d''] [''N'', ''N'', ''E'', ''N''] = Inr segs
         \<and> tiles 0 segs 4
         \<and> concat (map (seg_tokens [''a'', ''b'', ''c'', ''d'']) segs) = [''a'', ''b'', ''c'', ''d'']
         \<and> length segs = 3)"
proof -
  have e: "segments [''a'', ''b'', ''c'', ''d''] [''N'', ''N'', ''E'', ''N'']
       = Inr [(''N'', 0, 2, ''a b''), (''E'', 2, 3, ''c''), (''N'', 3, 4, ''d'')]"
    by (simp add: segments_def upt_rec py_slice_def slice_index_def)
  have c: "label_changes [''N'', ''N'', ''E'', ''N''] = 2" by simp
  show ?thesis
    using C7_segments_tile [of "[''a'', ''b'', ''c'', ''d'']" "[''N'', ''N'', ''E'', ''N'']"] e c
    by simp
qed

subsection \<open>Word-level labels\<close>

lemma list_index_inside:
  "0 \<le> i \<Longrightarrow> i < int (length xs) \<Longrightarrow> list_index xs i = Inr (nat i)"
  by (simp add: list_index_def Let_def)

lemma cover_loop_range:
  assumes "0 \<le> a" "b \<le> int n" "length sumv = n" "length cnts = n"
  shows "\<exists>sumv' cnts'. cover_loop sc (range_up a b 1) (sumv, cnts) = Inr (sumv', cnts')
       \<and> length sumv' = n \<and> length cnts' = n
       \<and> (\<forall>p<n. sumv' ! p = (if a \<le> int p \<and> int p < b then fadd (sumv ! p) sc else sumv ! p)
                \<and> cnts' ! p = cnts ! p + (if a \<le> int p \<and> int p < b then 1 else 0))"
  using assms
proof (induction a b "1::int" arbitrary: sumv cnts rule: range_up.induct)
  case (1 i stop)
  show ?case
  proof (cases "i < stop")
    case False
    then have "range_up i stop 1 = []" by (subst range_up.simps) simp
    then show ?thesis using False 1(4,5) by auto
  next
    case True
    then have unf: "range_up i stop 1 = i # range_up (i + 1) stop 1"
      by (subst range_up.simps) simp
    have i_n: "i < int n" using True 1(3) by simp
    let ?s1 = "sumv[nat i := fadd (sumv ! nat i) sc]"
    let ?c1 = "cnts[nat i := cnts ! nat i + 1]"
    have a1: "list_index sumv i = Inr (nat i)"
      using list_index_inside[of i sumv] 1(2,4) i_n by simp
    have a2: "list_index cnts i = Inr (nat i)"
      using list_index_inside[of i cnts] 1(2,5) i_n by simp
    have step: "cover_loop sc (range_up i stop 1) (sumv, cnts) =
                cover_loop sc (range_up (i + 1) stop 1) (?s1, ?c1)"
      by (simp add: unf a1 a2 Let_def)
    have "\<exists>sumv' cnts'. cover_loop sc (range_up (i + 1) stop 1) (?s1, ?c1) = Inr (sumv', cnts')
       \<and> length sumv' = n \<and> length cnts' = n
       \<and> (\<forall>p<n. sumv' ! p = (if i + 1 \<le> int p \<and> int p < stop then fadd (?s1 ! p) sc else ?s1 ! p)
                \<and> cnts' ! p = ?c1 ! p + (if i + 1 \<le> int p \<and> int p < stop then 1 else 0))"
      using 1(1)[of ?s1 ?c1] True 1(2,3,4,5) by simp
    then obtain sumv' cnts' where
      r: "cover_loop sc (range_up (i + 1) stop 1) (?s1, ?c1) = Inr (sumv', cnts')"
      and l: "length sumv' = n" "length cnts' = n"
      and v: "\<forall>p<n. sumv' ! p = (if i + 1 \<le> int p \<and> int p < stop then fadd (?s1 ! p) sc else ?s1 ! p)
                \<and> cnts' ! p = ?c1 ! p + (if i + 1 \<le> int p \<and> int p < stop then 1 else 0)"
      by blast
    have "sumv' ! p = (if i \<le> int p \<and> int p < stop then fadd (sumv ! p) sc else sumv ! p)
        \<and> cnts' ! p = cnts ! p + (if i \<le> int p \<and> int p < stop then 1 else 0)"
      if p: "p < n" for p
    proof (cases "p = nat i")
      case True
      then have "int p = i" using 1(2) by simp
      then show ?thesis using v[rule_format, OF p] p 1(4,5) True \<open>i < stop\<close> by simp
    next
      case False
      then have "int p \<noteq> i" by auto
      then show ?thesis using v[rule_format, OF p] False by auto
    qed
    then show ?thesis using r l step by auto
  qed
qed

lemma covering_Cons:
  "covering (r # rs) p =
     (if r_start r \<le> int p \<and> int p < r_end r then r # covering rs p else covering rs p)"
  by (simp add: covering_def)

lemma windows_loop_inside:
  assumes "\<forall>r\<in>set ws. 0 \<le> r_start r \<and> r_end r \<le> int n"
      and "length sumv = n" "length cnts = n"
  shows "\<exists>sumv' cnts'. windows_loop ws (sumv, cnts) = Inr (sumv', cnts')
       \<and> length sumv' = n \<and> length cnts' = n
       \<and> (\<forall>p<n. sumv' ! p = foldl fadd (sumv ! p) (map r_score (covering ws p))
                \<and> cnts' ! p = cnts ! p + int (length (covering ws p)))"
  using assms
proof (induction ws arbitrary: sumv cnts)
  case Nil
  then show ?case by (simp add: covering_def)
next
  case (Cons r rs)
  have rr: "0 \<le> r_start r" "r_end r \<le> int n" using Cons.prems(1) by simp_all
  obtain s1 c1 where
    c: "cover_loop (r_score r) (range_up (r_start r) (r_end r) 1) (sumv, cnts) = Inr (s1, c1)"
    and l1: "length s1 = n" "length c1 = n"
    and v1: "\<forall>p<n. s1 ! p = (if r_start r \<le> int p \<and> int p < r_end r
                              then fadd (sumv ! p) (r_score r) else sumv ! p)
                \<and> c1 ! p = cnts ! p + (if r_start r \<le> int p \<and> int p < r_end r then 1 else 0)"
    using cover_loop_range[OF rr Cons.prems(2,3), of "r_score r"] by blast
  have "\<forall>r\<in>set rs. 0 \<le> r_start r \<and> r_end r \<le> int n" using Cons.prems(1) by simp
  then obtain s2 c2 where
    w: "windows_loop rs (s1, c1) = Inr (s2, c2)"
    and l2: "length s2 = n" "length c2 = n"
    and v2: "\<forall>p<n. s2 ! p = foldl fadd (s1 ! p) (map r_score (covering rs p))
                \<and> c2 ! p = c1 ! p + int (length (covering rs p))"
    using Cons.IH[OF _ l1] by blast
  have res: "windows_loop (r # rs) (sumv, cnts) = Inr (s2, c2)" by (simp add: c w)
  have "s2 ! p = foldl fadd (sumv ! p) (map r_score (covering (r # rs) p))
      \<and> c2 ! p = cnts ! p + int (length (covering (r # rs) p))" if p: "p < n" for p
    using v1[rule_format, OF p] v2[rule_format, OF p] by (simp add: covering_Cons)
  then show ?case using res l2 by blast
qed

lemma labels_loop_total:
  assumes "\<forall>i\<in>set idxs. \<exists>v. avg_at sumv cnts i = Inr v"
  shows "labels_loop scorer sumv cnts idxs labels =
     Inr (labels @ map (\<lambda>i. label scorer (projr (avg_at sumv cnts i))) idxs)"
  using assms
proof (induction idxs arbitrary: labels)
  case Nil
  show ?case by simp
next
  case (Cons i idxs)
  obtain v where v: "avg_at sumv cnts i = Inr v" using Cons.prems by auto
  have "\<forall>i\<in>set idxs. \<exists>v. avg_at sumv cnts i = Inr v" using Cons.prems by simp
  then show ?case by (simp add: v Cons.IH)
qed

lemma mean_score_defined:
  assumes "int (length windows) < 2 ^ 53"
  shows "\<exists>m. mean_score windows p = Inr m"
proof (cases "covering windows p = []")
  case True
  then show ?thesis by (simp add: mean_score_def)
next
  case False
  let ?c = "int (length (covering windows p))"
  have "length (covering windows p) \<le> length windows" by (simp add: covering_def)
  then have c53: "?c < 2 ^ 53" using assms by linarith
  have "0 < length (covering windows p)" using False by simp
  then have c1: "1 \<le> ?c" by linarith
  have f: "int_to_float ?c = Inr (Fin (of_int ?c))" using c53 by (intro int_to_float_exact) simp
  have "\<not> is_zero (Fin (of_int ?c))" using False by (simp add: is_zero_def)
  then show ?thesis using False by (simp add: mean_score_def f truediv_def)
qed

lemma word_level_labels_inside:
  assumes "\<forall>r\<in>set windows. 0 \<le> r_start r \<and> r_end r \<le> int (length tokens)"
      and "int (length windows) < 2 ^ 53"
  shows "\<exists>labs. word_level_labels tokens windows scorer = Inr labs
       \<and> length labs = length tokens
       \<and> (\<forall>p<length tokens. \<exists>m. mean_score windows p = Inr m \<and> labs ! p = label scorer m)"
proof (cases "length tokens = 0")
  case True
  then show ?thesis by (simp add: word_level_labels_def)
next
  case False
  let ?n = "length tokens"
  obtain sumv cnts where
    w: "windows_loop windows (replicate ?n (Fin 0), replicate ?n 0) = Inr (sumv, cnts)"
    and v: "\<forall>p<?n. sumv ! p = foldl fadd (replicate ?n (Fin 0) ! p) (map r_score (covering windows p))
                \<and> cnts ! p = replicate ?n 0 ! p + int (length (covering windows p))"
    using windows_loop_inside[OF assms(1), of "replicate ?n (Fin 0)" "replicate ?n 0"] by auto
  have avg: "avg_at sumv cnts p = mean_score windows p" if p: "p < ?n" for p
    using v[rule_format, OF p] p by (simp add: avg_at_def mean_score_def split: sum.splits)
  have d: "\<forall>i\<in>set [0..<?n]. \<exists>v. avg_at sumv cnts i = Inr v"
    using avg mean_score_defined[OF assms(2)] by simp
  have res: "word_level_labels tokens windows scorer
               = Inr (map (\<lambda>i. label scorer (projr (avg_at sumv cnts i))) [0..<?n])"
    using False by (simp add: word_level_labels_def w labels_loop_total[OF d])
  have "\<exists>m. mean_score windows p = Inr m
           \<and> map (\<lambda>i. label scorer (projr (avg_at sumv cnts i))) [0..<?n] ! p = label scorer m"
    if p: "p < ?n" for p
  proof -
    obtain m where m: "mean_score windows p = Inr m"
      using mean_score_defined[OF assms(2)] by blast
    then show ?thesis using p avg[OF p] by simp
  qed
  then show ?thesis using res by simp
qed

lemma mean_score_uncovered: "covering windows p = [] \<Longrightarrow> mean_score windows p = Inr (Fin 0)"
  by (simp add: mean_score_def)

subsection \<open>C6: labels from the covering windows\<close>

text \<open>
  C6, as stated, covers every list of window reports. A report that ends beyond the
  token sequence makes \<^verbatim>\<open>sums[i] += ...\<close> index past the end of the list, and the call
  raises \<^verbatim>\<open>IndexError\<close> instead of returning labels.
\<close>

theorem C6_report_out_of_range_raises:
  "word_level_labels [''a'']
     [\<lparr>r_start = 0, r_end = 2, r_score = Fin 1, r_label = ''EMINESCU'', r_snippet = ''a''\<rparr>]
     (make_scorer (train [] (Fin 1)) (train [] (Fin 1)) (Fin (1 / 4)))
   = Inl IndexError"
  by (simp add: word_level_labels_def range_up.simps list_index_def)

text \<open>
  C6 (amended): for every token sequence and every list of fewer than \<open>2^53\<close> window
  reports whose ranges lie inside it (\<open>0 \<le> start\<close> and \<open>end \<le> n\<close>, as for every report
  \<open>scan\<close> produces on these tokens), \<open>aggregate\<close> returns a label list whose length is the
  token count; the label of each position is \<open>label(m)\<close> with \<open>m\<close> the mean the code
  computes in double arithmetic of the scores of the windows whose \<open>[start, end)\<close> covers
  the position: their sum accumulated from \<open>0.0\<close> in report order, divided by their
  number. A position covered by no window has mean \<open>0.0\<close> and, for \<open>epsNeither \<ge> 0\<close>,
  label \<^verbatim>\<open>NEITHER\<close>.
\<close>

theorem C6_labels_are_mean_labels:
  assumes "\<forall>r\<in>set windows. 0 \<le> r_start r \<and> r_end r \<le> int (length tokens)"
      and "int (length windows) < 2 ^ 53"
  shows "\<exists>labs. word_level_labels tokens windows scorer = Inr labs
       \<and> length labs = length tokens
       \<and> (\<forall>p<length tokens. \<exists>m.
             mean_score windows p = Inr m
           \<and> labs ! p = label scorer m
           \<and> (covering windows p = [] \<longrightarrow>
                 m = Fin 0
               \<and> (fle (Fin 0) (eps_neither scorer) \<longrightarrow> labs ! p = ''NEITHER'')))"
proof -
  obtain labs where r: "word_level_labels tokens windows scorer = Inr labs"
    and l: "length labs = length tokens"
    and v: "\<forall>p<length tokens. \<exists>m. mean_score windows p = Inr m \<and> labs ! p = label scorer m"
    using word_level_labels_inside[OF assms] by blast
  have "\<exists>m. mean_score windows p = Inr m
           \<and> labs ! p = label scorer m
           \<and> (covering windows p = [] \<longrightarrow>
                 m = Fin 0
               \<and> (fle (Fin 0) (eps_neither scorer) \<longrightarrow> labs ! p = ''NEITHER''))"
    if p: "p < length tokens" for p
  proof -
    obtain m where m: "mean_score windows p = Inr m" "labs ! p = label scorer m"
      using v[rule_format, OF p] by blast
    show ?thesis using m mean_score_uncovered[of windows p] label_zero[of scorer] by auto
  qed
  then show ?thesis using r l by blast
qed

theorem C6_labels_are_mean_labels_witness:
  "0 \<le> r_start \<lparr>r_start = 0, r_end = 2, r_score = Fin 1, r_label = ''EMINESCU'', r_snippet = ''a b''\<rparr>
   \<and> r_end \<lparr>r_start = 0, r_end = 2, r_score = Fin 1, r_label = ''EMINESCU'', r_snippet = ''a b''\<rparr>
        \<le> int (length [''a'', ''b'', ''c''])
   \<and> int (length [\<lparr>r_start = 0, r_end = 2, r_score = Fin 1, r_label = ''EMINESCU'',
                     r_snippet = ''a b''\<rparr>]) < 2 ^ 53
   \<and> covering [\<lparr>r_start = 0, r_end = 2, r_score = Fin 1, r_label = ''EMINESCU'',
                  r_snippet = ''a b''\<rparr>] 2 = []
   \<and> fle (Fin 0) (eps_neither (make_scorer (train [] (Fin 1)) (train [] (Fin 1)) (Fin (1 / 4))))
   \<and> word_level_labels [''a'', ''b'', ''c'']
        [\<lparr>r_start = 0, r_end = 2, r_score = Fin 1, r_label = ''EMINESCU'', r_snippet = ''a b''\<rparr>]
        (make_scorer (train [] (Fin 1)) (train [] (Fin 1)) (Fin (1 / 4)))
      = Inr [''EMINESCU'', ''EMINESCU'', ''NEITHER'']
   \<and> (\<exists>labs. word_level_labels [''a'', ''b'', ''c'']
        [\<lparr>r_start = 0, r_end = 2, r_score = Fin 1, r_label = ''EMINESCU'', r_snippet = ''a b''\<rparr>]
        (make_scorer (train [] (Fin 1)) (train [] (Fin 1)) (Fin (1 / 4))) = Inr labs
      \<and> length labs = 3 \<and> labs ! 2 = ''NEITHER'')"
proof -
  let ?r = "\<lparr>r_start = 0, r_end = 2, r_score = Fin 1, r_label = ''EMINESCU'', r_snippet = ''a b''\<rparr>"
  let ?sc = "make_scorer (train [] (Fin 1)) (train [] (Fin 1)) (Fin (1 / 4))"
  have h: "\<forall>r\<in>set [?r]. 0 \<le> r_start r \<and> r_end r \<le> int (length [''a'', ''b'', ''c''])"
    by simp
  have s: "int (length [?r]) < 2 ^ 53" by simp
  have c: "covering [?r] 2 = []" by (simp add: covering_def)
  have e: "fle (Fin 0) (eps_neither ?sc)" by (simp add: fle_def fgt_def)
  obtain labs where r: "word_level_labels [''a'', ''b'', ''c''] [?r] ?sc = Inr labs"
    and l: "length labs = length [''a'', ''b'', ''c'']"
    and v: "\<forall>p<length [''a'', ''b'', ''c'']. \<exists>m.
             mean_score [?r] p = Inr m
           \<and> labs ! p = label ?sc m
           \<and> (covering [?r] p = [] \<longrightarrow>
                 m = Fin 0 \<and> (fle (Fin 0) (eps_neither ?sc) \<longrightarrow> labs ! p = ''NEITHER''))"
    using C6_labels_are_mean_labels[OF h s, of ?sc] by blast
  have p2: "(2::nat) < length [''a'', ''b'', ''c'']" by simp
  have n2: "labs ! 2 = ''NEITHER''" using v[rule_format, OF p2] c e by blast
  have ev: "word_level_labels [''a'', ''b'', ''c''] [?r] ?sc
              = Inr [''EMINESCU'', ''EMINESCU'', ''NEITHER'']"
    by (simp add: word_level_labels_def range_up.simps list_index_def avg_at_def
          label_def fgt_def flt_def upt_rec float_eval)
  show ?thesis using r l n2 c e ev by simp
qed

subsection \<open>The pipeline\<close>











subsection \<open>C9: configuration and failures\<close>




end
